theory Spec2Isabelle
  imports Main "HOL-Library.Word"
begin

section \<open>Host values, errors and time stamps\<close>

text \<open>
  The profiler core of \<^verbatim>\<open>ext/vernier/vernier.cc\<close>. Handles of the host runtime
  (\<^verbatim>\<open>VALUE\<close>, \<^verbatim>\<open>pthread_t\<close>, \<^verbatim>\<open>native_thread_id_t\<close>) are 64-bit words. A C++
  \<^verbatim>\<open>int\<close> that only names or indexes (a line number, a node index, a length) is a
  HOL \<^typ>\<open>int\<close>: the tree would need \<open>2 ^ 31\<close> nodes before such a value leaves the
  range of \<^verbatim>\<open>int\<close>. The weight of a sample-list entry, the one \<^verbatim>\<open>int\<close> the code
  counts with, is a \<^typ>\<open>32 word\<close> read as a signed value (\<open>sint\<close>). The unsigned
  nanosecond counter of \<^verbatim>\<open>TimeStamp\<close> is a \<^typ>\<open>64 word\<close>, whose addition wraps as
  \<^verbatim>\<open>uint64_t\<close> does.

  Every way the code leaves a function early is a value of \<open>error\<close>: an exception
  thrown, a Ruby exception raised, a failed \<^verbatim>\<open>RUBY_ASSERT_ALWAYS\<close>, and a read
  outside a \<^verbatim>\<open>std::vector\<close> (undefined in C++, reported here as \<open>OutOfBounds\<close>).
\<close>

type_synonym VALUE = "64 word"
type_synonym pthread_t = "64 word"
type_synonym native_thread_id_t = "64 word"

datatype error =
    OutOfRange
  | RuntimeError string
  | RbRuntimeError string
  | AssertionFailed
  | OutOfBounds

datatype TimeStamp = TimeStamp (value_ns: "64 word")

definition TimeStamp_Zero :: TimeStamp where
  "TimeStamp_Zero = TimeStamp 0"

definition TimeStamp_plus :: "TimeStamp \<Rightarrow> TimeStamp \<Rightarrow> TimeStamp" where
  "TimeStamp_plus a b = TimeStamp (value_ns a + value_ns b)"

definition TimeStamp_minus :: "TimeStamp \<Rightarrow> TimeStamp \<Rightarrow> TimeStamp" where
  "TimeStamp_minus a b =
     (if value_ns a > value_ns b then TimeStamp (value_ns a - value_ns b) else TimeStamp 0)"

definition TimeStamp_less :: "TimeStamp \<Rightarrow> TimeStamp \<Rightarrow> bool" where
  "TimeStamp_less a b = (value_ns a < value_ns b)"

definition TimeStamp_less_eq :: "TimeStamp \<Rightarrow> TimeStamp \<Rightarrow> bool" where
  "TimeStamp_less_eq a b = (value_ns a \<le> value_ns b)"

definition TimeStamp_zero :: "TimeStamp \<Rightarrow> bool" where
  "TimeStamp_zero a = (value_ns a = 0)"

section \<open>Frames and raw samples\<close>

text \<open>
  Two frames are equal when both fields are (\<^verbatim>\<open>operator==\<close> on \<^verbatim>\<open>Frame\<close>), which is
  equality of the record. A C array of \<^verbatim>\<open>MAX_LEN\<close> cells is a function from the cell
  number to its content; the program only touches cells below \<^verbatim>\<open>MAX_LEN\<close>.
\<close>

record Frame =
  frame :: VALUE
  line :: int

definition MAX_LEN :: int where
  "MAX_LEN = 2048"

record RawSample =
  frames :: "nat \<Rightarrow> VALUE"
  lines :: "nat \<Rightarrow> int"
  len :: int
  gc :: bool

definition RawSample_new :: RawSample where
  "RawSample_new = \<lparr>RawSample.frames = (\<lambda>_. 0), lines = (\<lambda>_. 0), len = 0, gc = False\<rparr>"

definition RawSample_size :: "RawSample \<Rightarrow> int" where
  "RawSample_size s = RawSample.len s"

definition RawSample_empty :: "RawSample \<Rightarrow> bool" where
  "RawSample_empty s = (RawSample.len s = 0)"

text \<open>\<^verbatim>\<open>frame(i)\<close> counts from the root: the host writes the leaf first.\<close>

definition RawSample_frame :: "RawSample \<Rightarrow> int \<Rightarrow> error + Frame" where
  "RawSample_frame s i =
     (let idx = RawSample.len s - i - 1
      in if idx < 0 then Inl OutOfRange
         else Inr \<lparr>Frame.frame = RawSample.frames s (nat idx), line = lines s (nat idx)\<rparr>)"

definition RawSample_clear :: "RawSample \<Rightarrow> RawSample" where
  "RawSample_clear s = s\<lparr>RawSample.len := 0, gc := False\<rparr>"

text \<open>
  What the host runtime answers on the thread that takes a sample:
  \<^verbatim>\<open>ruby_native_thread_p()\<close>, \<^verbatim>\<open>rb_during_gc()\<close>, and the buffers and count of
  \<^verbatim>\<open>rb_profile_frames(0, MAX_LEN, frames, lines)\<close>.
\<close>

record Host =
  ruby_native_thread_p :: bool
  rb_during_gc :: bool
  profile_frames :: "nat \<Rightarrow> VALUE"
  profile_lines :: "nat \<Rightarrow> int"
  profile_count :: int

definition RawSample_sample :: "Host \<Rightarrow> RawSample \<Rightarrow> RawSample" where
  "RawSample_sample h s0 =
     (let s = RawSample_clear s0
      in if \<not> ruby_native_thread_p h then s
         else if rb_during_gc h then s\<lparr>gc := True\<rparr>
         else s\<lparr>RawSample.frames :=
                   (\<lambda>k. if int k < profile_count h then profile_frames h k
                        else RawSample.frames s k),
                lines := (\<lambda>k. if int k < profile_count h then profile_lines h k else lines s k),
                RawSample.len := profile_count h\<rparr>)"

section \<open>The stack tree of FrameList\<close>

text \<open>
  Only the stack tree of \<^verbatim>\<open>FrameList\<close> is modelled; its string and frame tables are
  filled at finalization and play no part below. A \<^verbatim>\<open>StackNode *\<close> points either at
  \<^verbatim>\<open>root_stack_node\<close> or at a cell of \<^verbatim>\<open>stack_node_list\<close>.
\<close>

record StackNode =
  children :: "Frame \<rightharpoonup> int"
  frame :: Frame
  parent :: int
  index :: int

definition StackNode_new :: "Frame \<Rightarrow> int \<Rightarrow> int \<Rightarrow> StackNode" where
  "StackNode_new fr idx par =
     \<lparr>children = Map.empty, StackNode.frame = fr, parent = par, index = idx\<rparr>"

definition StackNode_root :: StackNode where
  "StackNode_root =
     \<lparr>children = Map.empty, StackNode.frame = \<lparr>Frame.frame = 0, line = 0\<rparr>,
      parent = - 1, index = - 1\<rparr>"

record FrameList =
  root_stack_node :: StackNode
  stack_node_list :: "StackNode list"

definition FrameList_new :: FrameList where
  "FrameList_new = \<lparr>root_stack_node = StackNode_root, stack_node_list = []\<rparr>"

datatype node_ptr = RootNode | ListNode nat

fun deref :: "FrameList \<Rightarrow> node_ptr \<Rightarrow> StackNode" where
  "deref fl RootNode = root_stack_node fl"
| "deref fl (ListNode k) = stack_node_list fl ! k"

fun set_child :: "FrameList \<Rightarrow> node_ptr \<Rightarrow> Frame \<Rightarrow> int \<Rightarrow> FrameList" where
  "set_child fl RootNode fr c =
     fl\<lparr>root_stack_node := (root_stack_node fl)\<lparr>children := (children (root_stack_node fl))(fr \<mapsto> c)\<rparr>\<rparr>"
| "set_child fl (ListNode k) fr c =
     fl\<lparr>stack_node_list :=
          (stack_node_list fl)[k := (stack_node_list fl ! k)\<lparr>children := (children (stack_node_list fl ! k))(fr \<mapsto> c)\<rparr>]\<rparr>"

text \<open>\<^verbatim>\<open>&stack_node_list[i]\<close>: a cell that exists, or undefined behaviour.\<close>

definition node_at :: "FrameList \<Rightarrow> int \<Rightarrow> error + node_ptr" where
  "node_at fl i =
     (if 0 \<le> i \<and> i < int (length (stack_node_list fl)) then Inr (ListNode (nat i))
      else Inl OutOfBounds)"

definition next_stack_node :: "FrameList \<Rightarrow> node_ptr \<Rightarrow> Frame \<Rightarrow> error + (FrameList \<times> node_ptr)" where
  "next_stack_node fl node fr =
     (case children (deref fl node) fr of
        None \<Rightarrow>
          (let next_node_idx = int (length (stack_node_list fl));
               fl1 = set_child fl node fr next_node_idx;
               fl2 = fl1\<lparr>stack_node_list :=
                          stack_node_list fl1 @ [StackNode_new fr next_node_idx (index (deref fl1 node))]\<rparr>
           in (case node_at fl2 next_node_idx of Inl e \<Rightarrow> Inl e | Inr p \<Rightarrow> Inr (fl2, p)))
      | Some node_idx \<Rightarrow>
          (case node_at fl node_idx of Inl e \<Rightarrow> Inl e | Inr p \<Rightarrow> Inr (fl, p)))"

function stack_index_loop ::
  "RawSample \<Rightarrow> int \<Rightarrow> FrameList \<Rightarrow> node_ptr \<Rightarrow> error + (FrameList \<times> node_ptr)" where
  "stack_index_loop stack i fl node =
     (if i < RawSample_size stack then
        (case RawSample_frame stack i of
           Inl e \<Rightarrow> Inl e
         | Inr fr \<Rightarrow>
             (case next_stack_node fl node fr of
                Inl e \<Rightarrow> Inl e
              | Inr (fl', node') \<Rightarrow> stack_index_loop stack (i + 1) fl' node'))
      else Inr (fl, node))"
  by pat_completeness auto
termination
  by (relation "measure (\<lambda>(stack, i, fl, node). nat (RawSample_size stack - i))") auto

definition FrameList_stack_index :: "FrameList \<Rightarrow> RawSample \<Rightarrow> error + (FrameList \<times> int)" where
  "FrameList_stack_index fl stack =
     (if RawSample_empty stack then Inl (RuntimeError ''empty stack'')
      else (case stack_index_loop stack 0 fl RootNode of
              Inl e \<Rightarrow> Inl e
            | Inr (fl', node) \<Rightarrow> Inr (fl', index (deref fl' node))))"

section \<open>SampleTranslator\<close>

record SampleTranslator =
  last_stack_index :: int
  frames :: "nat \<Rightarrow> Frame"
  frame_indexes :: "nat \<Rightarrow> int"
  len :: int

text \<open>The two arrays of a new translator are not initialized; no cell is read before it is written.\<close>

definition SampleTranslator_new :: SampleTranslator where
  "SampleTranslator_new =
     \<lparr>last_stack_index = - 1, SampleTranslator.frames = (\<lambda>_. \<lparr>Frame.frame = 0, line = 0\<rparr>),
      frame_indexes = (\<lambda>_. 0), SampleTranslator.len = 0\<rparr>"

text \<open>The first loop of \<^verbatim>\<open>translate\<close>: the length of the prefix shared with the cache.\<close>

function translate_prefix :: "SampleTranslator \<Rightarrow> RawSample \<Rightarrow> int \<Rightarrow> error + int" where
  "translate_prefix tr sample i =
     (if i < SampleTranslator.len tr \<and> i < RawSample_size sample then
        (case RawSample_frame sample i of
           Inl e \<Rightarrow> Inl e
         | Inr fr \<Rightarrow>
             if SampleTranslator.frames tr (nat i) \<noteq> fr then Inr i
             else translate_prefix tr sample (i + 1))
      else Inr i)"
  by pat_completeness auto
termination
  by (relation "measure (\<lambda>(tr, sample, i). nat (RawSample_size sample - i))") auto

text \<open>The second loop: walk the rest of the sample, filling the cache.\<close>

function translate_walk ::
  "RawSample \<Rightarrow> int \<Rightarrow> FrameList \<Rightarrow> SampleTranslator \<Rightarrow> node_ptr
     \<Rightarrow> error + (FrameList \<times> SampleTranslator \<times> node_ptr \<times> int)" where
  "translate_walk sample i fl tr node =
     (if i < RawSample_size sample then
        (case RawSample_frame sample i of
           Inl e \<Rightarrow> Inl e
         | Inr fr \<Rightarrow>
             (case next_stack_node fl node fr of
                Inl e \<Rightarrow> Inl e
              | Inr (fl', node') \<Rightarrow>
                  translate_walk sample (i + 1) fl'
                    (tr\<lparr>SampleTranslator.frames := (SampleTranslator.frames tr)(nat i := fr),
                        frame_indexes := (frame_indexes tr)(nat i := index (deref fl' node'))\<rparr>)
                    node'))
      else Inr (fl, tr, node, i))"
  by pat_completeness auto
termination
  by (relation "measure (\<lambda>(sample, i, fl, tr, node). nat (RawSample_size sample - i))") auto

definition SampleTranslator_translate ::
  "FrameList \<Rightarrow> SampleTranslator \<Rightarrow> RawSample \<Rightarrow> error + (FrameList \<times> SampleTranslator \<times> int)" where
  "SampleTranslator_translate fl tr sample =
     (case translate_prefix tr sample 0 of
        Inl e \<Rightarrow> Inl e
      | Inr i \<Rightarrow>
          (case (if i = 0 then Inr RootNode else node_at fl (frame_indexes tr (nat (i - 1)))) of
             Inl e \<Rightarrow> Inl e
           | Inr node \<Rightarrow>
               (case translate_walk sample i fl tr node of
                  Inl e \<Rightarrow> Inl e
                | Inr (fl', tr', node', i') \<Rightarrow>
                    (let tr'' = tr'\<lparr>SampleTranslator.len := i',
                                    last_stack_index := index (deref fl' node')\<rparr>
                     in Inr (fl', tr'', last_stack_index tr'')))))"

section \<open>Markers and sample lists\<close>

datatype Type =
    MARKER_GVL_THREAD_STARTED
  | MARKER_GVL_THREAD_EXITED
  | MARKER_GC_START
  | MARKER_GC_END_MARK
  | MARKER_GC_END_SWEEP
  | MARKER_GC_ENTER
  | MARKER_GC_EXIT
  | MARKER_GC_PAUSE
  | MARKER_THREAD_RUNNING
  | MARKER_THREAD_STALLED
  | MARKER_THREAD_SUSPENDED
  | MARKER_MAX

datatype Phase = INSTANT | INTERVAL | INTERVAL_START | INTERVAL_END

record Marker =
  type :: Type
  phase :: Phase
  timestamp :: TimeStamp
  finish :: TimeStamp
  stack_index :: int

text \<open>A \<^verbatim>\<open>MarkerTable\<close> is its vector; the mutex that guards it is not modelled.\<close>

record MarkerTable =
  list :: "Marker list"

definition MarkerTable_new :: MarkerTable where
  "MarkerTable_new = \<lparr>MarkerTable.list = []\<rparr>"

definition MarkerTable_record_interval ::
  "Type \<Rightarrow> TimeStamp \<Rightarrow> TimeStamp \<Rightarrow> int \<Rightarrow> MarkerTable \<Rightarrow> MarkerTable" where
  "MarkerTable_record_interval ty from_ts to_ts si mt =
     mt\<lparr>MarkerTable.list := MarkerTable.list mt @
          [\<lparr>type = ty, phase = INTERVAL, timestamp = from_ts, finish = to_ts, stack_index = si\<rparr>]\<rparr>"

text \<open>\<^verbatim>\<open>record\<close> reads the clock itself; \<open>clock\<close> is what \<^verbatim>\<open>TimeStamp::Now()\<close> returns there.\<close>

definition MarkerTable_record :: "TimeStamp \<Rightarrow> Type \<Rightarrow> int \<Rightarrow> MarkerTable \<Rightarrow> MarkerTable" where
  "MarkerTable_record clock ty si mt =
     mt\<lparr>MarkerTable.list := MarkerTable.list mt @
          [\<lparr>type = ty, phase = INSTANT, timestamp = clock, finish = TimeStamp 0, stack_index = si\<rparr>]\<rparr>"

datatype Category = CATEGORY_NORMAL | CATEGORY_IDLE

record SampleList =
  stacks :: "int list"
  timestamps :: "TimeStamp list"
  threads :: "native_thread_id_t list"
  categories :: "Category list"
  weights :: "32 word list"

definition SampleList_new :: SampleList where
  "SampleList_new = \<lparr>stacks = [], timestamps = [], threads = [], categories = [], weights = []\<rparr>"

definition SampleList_size :: "SampleList \<Rightarrow> nat" where
  "SampleList_size sl = length (stacks sl)"

definition SampleList_empty :: "SampleList \<Rightarrow> bool" where
  "SampleList_empty sl = (SampleList_size sl = 0)"

text \<open>
  \<^verbatim>\<open>weights.back() += 1\<close> rewrites the last cell. The five vectors grow together, so
  each has a last cell when \<^verbatim>\<open>stacks\<close> has one. The increment is on a 32-bit \<^verbatim>\<open>int\<close>:
  at \<open>2147483647\<close> it is a signed overflow, undefined in C++, and the word wraps to
  \<open>-2147483648\<close> as the compiled code does.
\<close>

definition SampleList_record_sample ::
  "int \<Rightarrow> TimeStamp \<Rightarrow> native_thread_id_t \<Rightarrow> Category \<Rightarrow> SampleList \<Rightarrow> SampleList" where
  "SampleList_record_sample si time thread_id category sl =
     (if \<not> SampleList_empty sl \<and> last (stacks sl) = si \<and> last (threads sl) = thread_id
         \<and> last (categories sl) = category
      then sl\<lparr>weights := (weights sl)[length (weights sl) - 1 := last (weights sl) + 1]\<rparr>
      else sl\<lparr>stacks := stacks sl @ [si],
              timestamps := timestamps sl @ [time],
              threads := threads sl @ [thread_id],
              categories := categories sl @ [category],
              weights := weights sl @ [1]\<rparr>)"

section \<open>Threads and the thread table\<close>

datatype State = STARTED | RUNNING | READY | SUSPENDED | STOPPED

record Thread =
  samples :: SampleList
  ruby_thread :: VALUE
  ruby_thread_id :: VALUE
  pthread_id :: pthread_t
  native_tid :: native_thread_id_t
  state :: State
  state_changed_at :: TimeStamp
  started_at :: TimeStamp
  stopped_at :: TimeStamp
  stack_on_suspend_idx :: int
  translator :: SampleTranslator
  markers :: MarkerTable
  name :: string

text \<open>
  What the thread that delivers a lifecycle notification observes: the clock when the
  transition starts (\<open>now\<close>), the clock read inside \<^verbatim>\<open>MarkerTable::record\<close>
  (\<open>record_now\<close>), \<^verbatim>\<open>pthread_self()\<close>, \<^verbatim>\<open>get_native_thread_id()\<close>, \<^verbatim>\<open>rb_obj_id\<close>, and
  what \<^verbatim>\<open>RawSample::sample()\<close> would capture on it.
\<close>

record Caller =
  now :: TimeStamp
  record_now :: TimeStamp
  pthread_self :: pthread_t
  get_native_thread_id :: native_thread_id_t
  rb_obj_id :: "VALUE \<Rightarrow> VALUE"
  host :: Host

definition Thread_new :: "Caller \<Rightarrow> State \<Rightarrow> pthread_t \<Rightarrow> VALUE \<Rightarrow> Thread" where
  "Thread_new c st pid th =
     (let t = \<lparr>samples = SampleList_new, ruby_thread = th, ruby_thread_id = rb_obj_id c th,
               pthread_id = pid, native_tid = get_native_thread_id c, state = st,
               state_changed_at = now c, Thread.started_at = now c, stopped_at = TimeStamp 0,
               stack_on_suspend_idx = - 1, translator = SampleTranslator_new,
               markers = MarkerTable_new, name = []\<rparr>
      in if st = STARTED
         then t\<lparr>markers := MarkerTable_record (record_now c) MARKER_GVL_THREAD_STARTED (- 1) (markers t)\<rparr>
         else t)"

definition Thread_set_state :: "Caller \<Rightarrow> State \<Rightarrow> Thread \<Rightarrow> error + Thread" where
  "Thread_set_state c new_state t0 =
     (if state t0 = STOPPED then Inr t0
      else if new_state = SUSPENDED \<and> state t0 = new_state then Inr t0
      else
        (let from_ts = state_changed_at t0;
             now_ts = now c;
             t = (if TimeStamp_zero (Thread.started_at t0) then t0\<lparr>Thread.started_at := now_ts\<rparr> else t0)
         in case new_state of
              STARTED \<Rightarrow>
                Inr (t\<lparr>markers := MarkerTable_record (record_now c) MARKER_GVL_THREAD_STARTED (- 1) (markers t)\<rparr>)
            | RUNNING \<Rightarrow>
                if \<not> (state t = READY \<or> state t = RUNNING) then Inl AssertionFailed
                else
                  (let t1 = t\<lparr>pthread_id := pthread_self c, native_tid := get_native_thread_id c\<rparr>;
                       t2 = (if from_ts \<noteq> now_ts
                             then t1\<lparr>markers := MarkerTable_record_interval MARKER_THREAD_STALLED from_ts now_ts (- 1) (markers t1)\<rparr>
                             else t1)
                   in Inr (t2\<lparr>state := new_state, state_changed_at := now_ts\<rparr>))
            | READY \<Rightarrow>
                if \<not> (state t = STARTED \<or> state t = SUSPENDED \<or> state t = RUNNING) then Inl AssertionFailed
                else
                  (let t1 = (if state t = SUSPENDED
                             then t\<lparr>markers := MarkerTable_record_interval MARKER_THREAD_SUSPENDED from_ts now_ts (stack_on_suspend_idx t) (markers t)\<rparr>
                             else if state t = RUNNING
                             then t\<lparr>markers := MarkerTable_record_interval MARKER_THREAD_RUNNING from_ts now_ts (- 1) (markers t)\<rparr>
                             else t)
                   in Inr (t1\<lparr>state := new_state, state_changed_at := now_ts\<rparr>))
            | SUSPENDED \<Rightarrow>
                if \<not> (state t = RUNNING \<or> state t = STARTED \<or> state t = SUSPENDED) then Inl AssertionFailed
                else
                  (let t1 = t\<lparr>markers := MarkerTable_record_interval MARKER_THREAD_RUNNING from_ts now_ts (- 1) (markers t)\<rparr>
                   in Inr (t1\<lparr>state := new_state, state_changed_at := now_ts\<rparr>))
            | STOPPED \<Rightarrow>
                if \<not> (state t = RUNNING \<or> state t = STARTED \<or> state t = SUSPENDED) then Inl AssertionFailed
                else
                  (let t1 = t\<lparr>markers := MarkerTable_record_interval MARKER_THREAD_RUNNING from_ts now_ts (- 1) (markers t)\<rparr>;
                       t2 = t1\<lparr>markers := MarkerTable_record (record_now c) MARKER_GVL_THREAD_EXITED (- 1) (markers t1)\<rparr>;
                       t3 = t2\<lparr>stopped_at := now_ts\<rparr>
                   in Inr (t3\<lparr>state := new_state, state_changed_at := now_ts\<rparr>))))"

definition Thread_running :: "Thread \<Rightarrow> bool" where
  "Thread_running t = (state t \<noteq> STOPPED)"

text \<open>
  The table shares the collector's \<^verbatim>\<open>FrameList\<close> (a reference in the code); the model
  keeps it in the table. \<^verbatim>\<open>set_state\<close> searches the vector for the thread and, when
  none matches, appends a new one.
\<close>

record ThreadTable =
  frame_list :: FrameList
  list :: "Thread list"

definition thread_equal :: "VALUE \<Rightarrow> VALUE \<Rightarrow> bool" where
  "thread_equal a b = (a = b)"

definition set_state_found ::
  "Caller \<Rightarrow> State \<Rightarrow> FrameList \<Rightarrow> Thread \<Rightarrow> error + (FrameList \<times> Thread)" where
  "set_state_found c new_state fl t =
     (case (if new_state = SUSPENDED
            then (case SampleTranslator_translate fl (translator t) (RawSample_sample (host c) RawSample_new) of
                    Inl e \<Rightarrow> Inl e
                  | Inr (fl', tr', si) \<Rightarrow> Inr (fl', t\<lparr>translator := tr', stack_on_suspend_idx := si\<rparr>))
            else Inr (fl, t)) of
        Inl e \<Rightarrow> Inl e
      | Inr (fl1, t1) \<Rightarrow>
          (case Thread_set_state c new_state t1 of
             Inl e \<Rightarrow> Inl e
           | Inr t2 \<Rightarrow>
               Inr (fl1, if state t2 = RUNNING
                         then t2\<lparr>pthread_id := pthread_self c, native_tid := get_native_thread_id c\<rparr>
                         else t2\<lparr>pthread_id := 0, native_tid := 0\<rparr>)))"

fun set_state_loop ::
  "Caller \<Rightarrow> State \<Rightarrow> VALUE \<Rightarrow> FrameList \<Rightarrow> Thread list \<Rightarrow> error + (FrameList \<times> Thread list)" where
  "set_state_loop c new_state th fl [] = Inr (fl, [Thread_new c new_state (pthread_self c) th])"
| "set_state_loop c new_state th fl (t # ts) =
     (if thread_equal th (ruby_thread t)
      then (case set_state_found c new_state fl t of
              Inl e \<Rightarrow> Inl e
            | Inr (fl', t') \<Rightarrow> Inr (fl', t' # ts))
      else (case set_state_loop c new_state th fl ts of
              Inl e \<Rightarrow> Inl e
            | Inr (fl', ts') \<Rightarrow> Inr (fl', t # ts')))"

definition ThreadTable_set_state :: "Caller \<Rightarrow> State \<Rightarrow> VALUE \<Rightarrow> ThreadTable \<Rightarrow> error + ThreadTable" where
  "ThreadTable_set_state c new_state th tt =
     (case set_state_loop c new_state th (ThreadTable.frame_list tt) (ThreadTable.list tt) of
        Inl e \<Rightarrow> Inl e
      | Inr (fl', ts') \<Rightarrow> Inr (tt\<lparr>ThreadTable.frame_list := fl', ThreadTable.list := ts'\<rparr>))"

section \<open>The sampler loop of TimeCollector\<close>

text \<open>
  A capture sends \<^verbatim>\<open>SIGPROF\<close> to the target and waits for its handler, which runs
  \<^verbatim>\<open>RawSample::sample()\<close> on the shared \<^verbatim>\<open>LiveSample\<close>. The handshake is not modelled;
  \<open>hosts pid\<close> is what the host runtime answers on the thread \<open>pid\<close> when the signal
  arrives. A \<^verbatim>\<open>LiveSample\<close> is its \<^verbatim>\<open>RawSample\<close>.
\<close>

definition GlobalSignalHandler_record_sample ::
  "(pthread_t \<Rightarrow> Host) \<Rightarrow> RawSample \<Rightarrow> pthread_t \<Rightarrow> error + RawSample" where
  "GlobalSignalHandler_record_sample hosts sample pid =
     (if pid = 0 then Inl AssertionFailed else Inr (RawSample_sample (hosts pid) sample))"

definition TimeCollector_record_sample ::
  "FrameList \<Rightarrow> RawSample \<Rightarrow> TimeStamp \<Rightarrow> Thread \<Rightarrow> Category \<Rightarrow> error + (FrameList \<times> Thread)" where
  "TimeCollector_record_sample fl sample time thread category =
     (if \<not> RawSample_empty sample then
        (case SampleTranslator_translate fl (translator thread) sample of
           Inl e \<Rightarrow> Inl e
         | Inr (fl', tr', si) \<Rightarrow>
             Inr (fl', thread\<lparr>translator := tr',
                              samples := SampleList_record_sample si time (native_tid thread) category (samples thread)\<rparr>))
      else Inr (fl, thread))"

text \<open>The body of the loop over \<^verbatim>\<open>threads.list\<close>, for one thread.\<close>

definition sample_thread ::
  "(pthread_t \<Rightarrow> Host) \<Rightarrow> TimeStamp \<Rightarrow> FrameList \<Rightarrow> RawSample \<Rightarrow> Thread
     \<Rightarrow> error + (FrameList \<times> RawSample \<times> Thread)" where
  "sample_thread hosts sample_start fl sample thread =
     (if state thread = RUNNING then
        (case GlobalSignalHandler_record_sample hosts sample (pthread_id thread) of
           Inl e \<Rightarrow> Inl e
         | Inr sample' \<Rightarrow>
             if gc sample' then Inr (fl, sample', thread)
             else (case TimeCollector_record_sample fl sample' sample_start thread CATEGORY_NORMAL of
                     Inl e \<Rightarrow> Inl e
                   | Inr (fl', thread') \<Rightarrow> Inr (fl', sample', thread')))
      else if state thread = SUSPENDED then
        Inr (fl, sample,
             thread\<lparr>samples := SampleList_record_sample (stack_on_suspend_idx thread) sample_start
                                  (native_tid thread) CATEGORY_IDLE (samples thread)\<rparr>)
      else Inr (fl, sample, thread))"

fun sample_threads ::
  "(pthread_t \<Rightarrow> Host) \<Rightarrow> TimeStamp \<Rightarrow> FrameList \<Rightarrow> RawSample \<Rightarrow> Thread list
     \<Rightarrow> error + (FrameList \<times> RawSample \<times> Thread list)" where
  "sample_threads hosts sample_start fl sample [] = Inr (fl, sample, [])"
| "sample_threads hosts sample_start fl sample (t # ts) =
     (case sample_thread hosts sample_start fl sample t of
        Inl e \<Rightarrow> Inl e
      | Inr (fl', sample', t') \<Rightarrow>
          (case sample_threads hosts sample_start fl' sample' ts of
             Inl e \<Rightarrow> Inl e
           | Inr (fl'', sample'', ts') \<Rightarrow> Inr (fl'', sample'', t' # ts')))"

text \<open>The end of an iteration: the next scheduled tick.\<close>

definition next_schedule :: "TimeStamp \<Rightarrow> TimeStamp \<Rightarrow> TimeStamp \<Rightarrow> TimeStamp" where
  "next_schedule next_sample_schedule interval sample_complete =
     (let n = TimeStamp_plus next_sample_schedule interval
      in if TimeStamp_less n sample_complete then TimeStamp_plus sample_complete interval else n)"

text \<open>
  One element of \<open>ticks\<close> for each iteration that found \<^verbatim>\<open>running\<close> set: the two clock
  readings and the hosts' answers of that iteration. The loop ends when the list does.
\<close>

record Tick =
  sample_start :: TimeStamp
  hosts :: "pthread_t \<Rightarrow> Host"
  sample_complete :: TimeStamp

fun sample_thread_run_loop ::
  "TimeStamp \<Rightarrow> TimeStamp \<Rightarrow> RawSample \<Rightarrow> ThreadTable \<Rightarrow> Tick list
     \<Rightarrow> error + (ThreadTable \<times> RawSample \<times> TimeStamp)" where
  "sample_thread_run_loop interval next_sample_schedule sample tt [] =
     Inr (tt, sample, next_sample_schedule)"
| "sample_thread_run_loop interval next_sample_schedule sample tt (tick # ticks) =
     (case sample_threads (hosts tick) (sample_start tick) (ThreadTable.frame_list tt) sample (ThreadTable.list tt) of
        Inl e \<Rightarrow> Inl e
      | Inr (fl', sample', ts') \<Rightarrow>
          sample_thread_run_loop interval
            (next_schedule next_sample_schedule interval (sample_complete tick))
            sample' (tt\<lparr>ThreadTable.frame_list := fl', ThreadTable.list := ts'\<rparr>) ticks)"

definition sample_thread_run ::
  "TimeStamp \<Rightarrow> TimeStamp \<Rightarrow> ThreadTable \<Rightarrow> Tick list \<Rightarrow> error + (ThreadTable \<times> RawSample \<times> TimeStamp)" where
  "sample_thread_run interval clock tt ticks = sample_thread_run_loop interval clock RawSample_new tt ticks"

section \<open>Starting and stopping a collector\<close>

text \<open>
  \<^verbatim>\<open>rb_raise\<close> leaves the function at once, and the collector stays as it was at that
  point: a failing call returns the error together with the collector. The derived
  collectors override \<^verbatim>\<open>start\<close> and \<^verbatim>\<open>stop\<close>; each override calls the method of
  \<^verbatim>\<open>BaseCollector\<close> first and goes on (\<open>rest\<close>) only when that call returned normally.
\<close>

datatype retval = Qnil | Qtrue | Result VALUE

record BaseCollector =
  running :: bool
  frame_list :: FrameList
  started_at :: TimeStamp

definition BaseCollector_start :: "TimeStamp \<Rightarrow> 'a BaseCollector_scheme \<Rightarrow> bool \<times> 'a BaseCollector_scheme" where
  "BaseCollector_start clock c =
     (if running c then (False, c)
      else (True, c\<lparr>BaseCollector.started_at := clock, running := True\<rparr>))"

definition BaseCollector_stop :: "'a BaseCollector_scheme \<Rightarrow> (error + retval) \<times> 'a BaseCollector_scheme" where
  "BaseCollector_stop c =
     (if \<not> running c then (Inl (RbRuntimeError ''collector not running''), c)
      else (Inr Qnil, c\<lparr>running := False\<rparr>))"

definition override_start ::
  "('a BaseCollector_scheme \<Rightarrow> 'a BaseCollector_scheme) \<Rightarrow> TimeStamp \<Rightarrow> 'a BaseCollector_scheme
     \<Rightarrow> bool \<times> 'a BaseCollector_scheme" where
  "override_start rest clock c =
     (case BaseCollector_start clock c of
        (False, c') \<Rightarrow> (False, c')
      | (True, c') \<Rightarrow> (True, rest c'))"

definition override_stop ::
  "('a BaseCollector_scheme \<Rightarrow> retval \<times> 'a BaseCollector_scheme) \<Rightarrow> 'a BaseCollector_scheme
     \<Rightarrow> (error + retval) \<times> 'a BaseCollector_scheme" where
  "override_stop rest c =
     (case BaseCollector_stop c of
        (Inl e, c') \<Rightarrow> (Inl e, c')
      | (Inr _, c') \<Rightarrow> (case rest c' of (r, c'') \<Rightarrow> (Inr r, c'')))"

text \<open>The entry points take the method that the virtual call reaches.\<close>

definition collector_start ::
  "('c \<Rightarrow> bool \<times> 'c) \<Rightarrow> 'c \<Rightarrow> (error + retval) \<times> 'c" where
  "collector_start start c =
     (case start c of
        (ok, c') \<Rightarrow> if \<not> ok then (Inl (RbRuntimeError ''already running''), c') else (Inr Qtrue, c'))"

definition collector_stop ::
  "('c \<Rightarrow> (error + retval) \<times> 'c) \<Rightarrow> 'c \<Rightarrow> (error + retval) \<times> 'c" where
  "collector_stop stop c = stop c"

section \<open>Vocabulary of the properties\<close>

text \<open>
  The definitions the properties are stated with: the invariants of the data, the
  sessions that say which states the program reaches, and the values of the examples.
  None of them is part of the program.
\<close>

subsection \<open>Sample lists\<close>

text \<open>The five vectors of a \<^verbatim>\<open>SampleList\<close> have one length; \<^verbatim>\<open>record_sample\<close> keeps it so.\<close>

definition SampleList_inv :: "SampleList \<Rightarrow> bool" where
  "SampleList_inv sl =
     (length (timestamps sl) = length (stacks sl) \<and> length (threads sl) = length (stacks sl)
      \<and> length (categories sl) = length (stacks sl) \<and> length (weights sl) = length (stacks sl))"

subsection \<open>The stack tree\<close>

text \<open>
  \<open>ptr_ok\<close>: the pointer is the root or a cell of the vector. \<open>wf_tree\<close>: the root has
  index \<open>-1\<close>, the node in cell \<open>k\<close> has index \<open>k\<close> and a parent before it, and a child
  entry \<open>fr \<mapsto> c\<close> of a node leads to cell \<open>c\<close>, which holds the frame \<open>fr\<close> and names
  that node as its parent. \<open>grows\<close>: the second tree has every node and child entry of
  the first. \<open>find_node\<close> follows child entries without inserting; \<open>walk\<close> is the loop
  of \<^verbatim>\<open>stack_index\<close> over a list of frames; \<open>grown\<close> is the tree after an insertion.
\<close>

fun ptr_ok :: "FrameList \<Rightarrow> node_ptr \<Rightarrow> bool" where
  "ptr_ok fl RootNode = True"
| "ptr_ok fl (ListNode k) = (k < length (stack_node_list fl))"

definition wf_tree :: "FrameList \<Rightarrow> bool" where
  "wf_tree fl \<longleftrightarrow>
     index (root_stack_node fl) = - 1
     \<and> (\<forall>k < length (stack_node_list fl).
           index (stack_node_list fl ! k) = int k
           \<and> parent (stack_node_list fl ! k) < int k)
     \<and> (\<forall>p fr c. ptr_ok fl p \<longrightarrow> children (deref fl p) fr = Some c \<longrightarrow>
           0 \<le> c \<and> nat c < length (stack_node_list fl)
           \<and> StackNode.frame (stack_node_list fl ! nat c) = fr
           \<and> parent (stack_node_list fl ! nat c) = index (deref fl p))"

definition grows :: "FrameList \<Rightarrow> FrameList \<Rightarrow> bool" where
  "grows fl fl' \<longleftrightarrow>
     length (stack_node_list fl) \<le> length (stack_node_list fl')
     \<and> (\<forall>p fr c. ptr_ok fl p \<longrightarrow> children (deref fl p) fr = Some c \<longrightarrow> children (deref fl' p) fr = Some c)"

fun find_node :: "FrameList \<Rightarrow> node_ptr \<Rightarrow> Frame list \<Rightarrow> node_ptr option" where
  "find_node fl p [] = Some p"
| "find_node fl p (fr # frs) =
     (case children (deref fl p) fr of
        None \<Rightarrow> None
      | Some c \<Rightarrow> find_node fl (ListNode (nat c)) frs)"

fun walk :: "FrameList \<Rightarrow> node_ptr \<Rightarrow> Frame list \<Rightarrow> error + (FrameList \<times> node_ptr)" where
  "walk fl p [] = Inr (fl, p)"
| "walk fl p (fr # frs) =
     (case next_stack_node fl p fr of
        Inl e \<Rightarrow> Inl e
      | Inr (fl', p') \<Rightarrow> walk fl' p' frs)"

definition grown :: "FrameList \<Rightarrow> node_ptr \<Rightarrow> Frame \<Rightarrow> FrameList" where
  "grown fl p fr =
     (let n = int (length (stack_node_list fl)); fl1 = set_child fl p fr n
      in fl1\<lparr>stack_node_list := stack_node_list fl1 @ [StackNode_new fr n (index (deref fl1 p))]\<rparr>)"

subsection \<open>Samples and translator caches\<close>

text \<open>
  A raw sample is well formed when its length is within the capacity of its arrays.
  \<open>stack_frames\<close> is the stack it holds, root first. The cache of a translator is
  sound for a tree (\<open>tr_inv\<close>) when each cached index is the node that the cached
  frames up to that position lead to.
\<close>

definition sample_ok :: "RawSample \<Rightarrow> bool" where
  "sample_ok s \<longleftrightarrow> 0 \<le> RawSample.len s \<and> RawSample.len s \<le> MAX_LEN"

definition stack_frames :: "RawSample \<Rightarrow> Frame list" where
  "stack_frames s =
     map (\<lambda>i. \<lparr>Frame.frame = RawSample.frames s (nat (RawSample.len s) - 1 - i),
               line = lines s (nat (RawSample.len s) - 1 - i)\<rparr>)
       [0..<nat (RawSample.len s)]"

definition cache_frames :: "SampleTranslator \<Rightarrow> Frame list" where
  "cache_frames tr = map (SampleTranslator.frames tr) [0..<nat (SampleTranslator.len tr)]"

definition cached :: "FrameList \<Rightarrow> SampleTranslator \<Rightarrow> Frame list \<Rightarrow> nat \<Rightarrow> bool" where
  "cached fl tr frs n \<longleftrightarrow>
     (\<forall>j<n. SampleTranslator.frames tr j = frs ! j
            \<and> (\<exists>k. find_node fl RootNode (take (Suc j) frs) = Some (ListNode k)
                    \<and> frame_indexes tr j = int k))"

definition tr_inv :: "FrameList \<Rightarrow> SampleTranslator \<Rightarrow> bool" where
  "tr_inv fl tr \<longleftrightarrow>
     0 \<le> SampleTranslator.len tr \<and> cached fl tr (cache_frames tr) (nat (SampleTranslator.len tr))"

subsection \<open>Capture sessions\<close>

text \<open>
  A capture session is the sequence of calls that reach one tree between two calls of
  \<^verbatim>\<open>clear\<close>: \<open>Translate k s\<close> is \<^verbatim>\<open>translate\<close> of the sample \<open>s\<close> by the translator of
  stream \<open>k\<close> (one per thread), \<open>StackIndex s\<close> is \<^verbatim>\<open>stack_index\<close> of \<open>s\<close>. A session
  starts from the empty tree and new translators; \<open>session_run\<close> returns the final
  state and the index each call returned. \<open>node_path\<close> reads the path of a node off the
  parent links, root first. \<open>first_difference\<close> is the first position at which two
  lists differ, \<open>shared_prefix_length\<close> the length of their longest common prefix.
\<close>

datatype call = Translate nat RawSample | StackIndex RawSample

record session =
  tree :: FrameList
  translators :: "nat \<Rightarrow> SampleTranslator"

definition session_new :: session where
  "session_new = \<lparr>tree = FrameList_new, translators = (\<lambda>_. SampleTranslator_new)\<rparr>"

fun session_call :: "session \<Rightarrow> call \<Rightarrow> error + (session \<times> int)" where
  "session_call st (Translate k s) =
     (case SampleTranslator_translate (tree st) (translators st k) s of
        Inl e \<Rightarrow> Inl e
      | Inr (fl', tr', i) \<Rightarrow> Inr (st\<lparr>tree := fl', translators := (translators st)(k := tr')\<rparr>, i))"
| "session_call st (StackIndex s) =
     (case FrameList_stack_index (tree st) s of
        Inl e \<Rightarrow> Inl e
      | Inr (fl', i) \<Rightarrow> Inr (st\<lparr>tree := fl'\<rparr>, i))"

fun session_run :: "session \<Rightarrow> call list \<Rightarrow> error + (session \<times> int list)" where
  "session_run st [] = Inr (st, [])"
| "session_run st (c # cs) =
     (case session_call st c of
        Inl e \<Rightarrow> Inl e
      | Inr (st', i) \<Rightarrow>
          (case session_run st' cs of
             Inl e \<Rightarrow> Inl e
           | Inr (st'', outs) \<Rightarrow> Inr (st'', i # outs)))"

fun call_sample :: "call \<Rightarrow> RawSample" where
  "call_sample (Translate k s) = s"
| "call_sample (StackIndex s) = s"

fun call_ok :: "call \<Rightarrow> bool" where
  "call_ok (Translate k s) = sample_ok s"
| "call_ok (StackIndex s) = (sample_ok s \<and> 1 \<le> RawSample.len s)"

function path_to_root :: "FrameList \<Rightarrow> int \<Rightarrow> Frame list" where
  "path_to_root fl i =
     (if 0 \<le> i \<and> i < int (length (stack_node_list fl)) \<and> parent (stack_node_list fl ! nat i) < i
      then StackNode.frame (stack_node_list fl ! nat i) # path_to_root fl (parent (stack_node_list fl ! nat i))
      else [])"
  by pat_completeness auto
termination
  by (relation "measure (\<lambda>(fl, i). nat (i + 1))") auto

definition node_path :: "FrameList \<Rightarrow> int \<Rightarrow> Frame list" where
  "node_path fl i = rev (path_to_root fl i)"

fun first_difference :: "'a list \<Rightarrow> 'a list \<Rightarrow> nat option" where
  "first_difference [] [] = None"
| "first_difference [] (y # ys) = Some 0"
| "first_difference (x # xs) [] = Some 0"
| "first_difference (x # xs) (y # ys) =
     (if x = y then map_option Suc (first_difference xs ys) else Some 0)"

fun shared_prefix_length :: "'a list \<Rightarrow> 'a list \<Rightarrow> nat" where
  "shared_prefix_length (x # xs) (y # ys) = (if x = y then Suc (shared_prefix_length xs ys) else 0)"
| "shared_prefix_length xs ys = 0"

definition sess_inv :: "session \<Rightarrow> bool" where
  "sess_inv st \<longleftrightarrow> wf_tree (tree st) \<and> (\<forall>k. tr_inv (tree st) (translators st k))"

subsection \<open>Thread tables\<close>

text \<open>
  What reaches a thread table during a session, in the order the table's mutex admits
  it: \<open>Notify c st th\<close> is \<^verbatim>\<open>ThreadTable::set_state(st, th)\<close> delivered on a thread that
  observes \<open>c\<close>, \<open>SamplerTick tick\<close> is the loop over \<^verbatim>\<open>threads.list\<close> of one sampler
  iteration. The host keeps its contract when \<^verbatim>\<open>rb_profile_frames\<close> returns a count
  within the buffer and \<^verbatim>\<open>pthread_self()\<close> is not 0. \<open>profiler_run\<close> starts from the
  empty table. \<open>table_inv\<close>: every translator's cache is sound for the shared tree, a
  RUNNING thread has a pthread id to signal, and no two threads share an identity.
  \<open>tick_outcome\<close> says what one tick does to one thread, given what it means for an
  index to denote a stack.
\<close>

definition host_ok :: "Host \<Rightarrow> bool" where
  "host_ok h \<longleftrightarrow> 0 \<le> profile_count h \<and> profile_count h \<le> MAX_LEN"

definition caller_ok :: "Caller \<Rightarrow> bool" where
  "caller_ok c \<longleftrightarrow> host_ok (host c) \<and> pthread_self c \<noteq> 0"

definition ThreadTable_new :: ThreadTable where
  "ThreadTable_new = \<lparr>ThreadTable.frame_list = FrameList_new, ThreadTable.list = []\<rparr>"

datatype table_event = Notify Caller State VALUE | SamplerTick Tick

fun profiler_step :: "ThreadTable \<times> RawSample \<Rightarrow> table_event \<Rightarrow> error + (ThreadTable \<times> RawSample)" where
  "profiler_step (tt, smp) (Notify c new_state th) =
     (case ThreadTable_set_state c new_state th tt of
        Inl e \<Rightarrow> Inl e
      | Inr tt' \<Rightarrow> Inr (tt', smp))"
| "profiler_step (tt, smp) (SamplerTick tick) =
     (case sample_threads (hosts tick) (sample_start tick) (ThreadTable.frame_list tt) smp (ThreadTable.list tt) of
        Inl e \<Rightarrow> Inl e
      | Inr (fl', smp', ts') \<Rightarrow> Inr (tt\<lparr>ThreadTable.frame_list := fl', ThreadTable.list := ts'\<rparr>, smp'))"

fun profiler_run :: "ThreadTable \<times> RawSample \<Rightarrow> table_event list \<Rightarrow> error + (ThreadTable \<times> RawSample)" where
  "profiler_run st [] = Inr st"
| "profiler_run st (e # es) =
     (case profiler_step st e of
        Inl err \<Rightarrow> Inl err
      | Inr st' \<Rightarrow> profiler_run st' es)"

fun event_ok :: "table_event \<Rightarrow> bool" where
  "event_ok (Notify c new_state th) = caller_ok c"
| "event_ok (SamplerTick tick) = (\<forall>pid. host_ok (hosts tick pid))"

definition thread_inv :: "FrameList \<Rightarrow> Thread \<Rightarrow> bool" where
  "thread_inv fl t \<longleftrightarrow> tr_inv fl (translator t) \<and> (state t = RUNNING \<longrightarrow> pthread_id t \<noteq> 0)"

definition table_inv :: "ThreadTable \<Rightarrow> bool" where
  "table_inv tt \<longleftrightarrow>
     wf_tree (ThreadTable.frame_list tt)
     \<and> (\<forall>t \<in> set (ThreadTable.list tt). thread_inv (ThreadTable.frame_list tt) t)
     \<and> distinct (map ruby_thread (ThreadTable.list tt))"

definition tick_outcome ::
  "(int \<Rightarrow> Frame list \<Rightarrow> bool) \<Rightarrow> (pthread_t \<Rightarrow> Host) \<Rightarrow> TimeStamp \<Rightarrow> Thread \<Rightarrow> Thread \<Rightarrow> bool" where
  "tick_outcome denotes hs start t t' \<longleftrightarrow>
     (if state t = RUNNING then
        (if gc (RawSample_sample (hs (pthread_id t)) RawSample_new)
            \<or> RawSample_empty (RawSample_sample (hs (pthread_id t)) RawSample_new)
         then t' = t
         else (\<exists>i tr'. t' = t\<lparr>translator := tr',
                                 samples := SampleList_record_sample i start (native_tid t)
                                              CATEGORY_NORMAL (samples t)\<rparr>
                   \<and> denotes i (stack_frames (RawSample_sample (hs (pthread_id t)) RawSample_new))))
      else if state t = SUSPENDED then
        t' = t\<lparr>samples := SampleList_record_sample (stack_on_suspend_idx t) start (native_tid t)
                             CATEGORY_IDLE (samples t)\<rparr>
      else t' = t)"

definition found_at :: "FrameList \<Rightarrow> int \<Rightarrow> Frame list \<Rightarrow> bool" where
  "found_at fl i frs \<longleftrightarrow> (\<exists>k. find_node fl RootNode frs = Some (ListNode k) \<and> i = int k)"

subsection \<open>Values of the examples\<close>

text \<open>
  Three frames, a raw sample holding a stack given root first (the arrays hold the
  leaf first), and the collectors, hosts, callers, tables and ticks of the examples.
\<close>

definition fa :: Frame where "fa = \<lparr>Frame.frame = 10, line = 1\<rparr>"
definition fb :: Frame where "fb = \<lparr>Frame.frame = 20, line = 2\<rparr>"
definition fc :: Frame where "fc = \<lparr>Frame.frame = 30, line = 3\<rparr>"

definition raw_of :: "Frame list \<Rightarrow> RawSample" where
  "raw_of frs =
     \<lparr>RawSample.frames = (\<lambda>k. if k < length frs then Frame.frame (rev frs ! k) else 0),
      lines = (\<lambda>k. if k < length frs then line (rev frs ! k) else 0),
      len = int (length frs), gc = False\<rparr>"

definition collector0 :: BaseCollector where
  "collector0 = \<lparr>running = False, BaseCollector.frame_list = FrameList_new, BaseCollector.started_at = TimeStamp 0\<rparr>"

definition table0 :: ThreadTable where
  "table0 = \<lparr>ThreadTable.frame_list = FrameList_new, ThreadTable.list = []\<rparr>"

definition tick0 :: Tick where
  "tick0 = \<lparr>sample_start = TimeStamp 110, hosts = (\<lambda>_. \<lparr>ruby_native_thread_p = False, rb_during_gc = False,
       profile_frames = (\<lambda>_. 0), profile_lines = (\<lambda>_. 0), profile_count = 0\<rparr>), sample_complete = TimeStamp 200\<rparr>"

definition caller0 :: Caller where
  "caller0 = \<lparr>now = TimeStamp 100, record_now = TimeStamp 101, pthread_self = 7,
              get_native_thread_id = 5, rb_obj_id = (\<lambda>v. v),
              host = \<lparr>ruby_native_thread_p = True, rb_during_gc = False,
                      profile_frames = (\<lambda>_. 0), profile_lines = (\<lambda>_. 0), profile_count = 0\<rparr>\<rparr>"

definition host_fa :: Host where
  "host_fa = \<lparr>ruby_native_thread_p = True, rb_during_gc = False,
              profile_frames = (\<lambda>_. 10), profile_lines = (\<lambda>_. 1), profile_count = 1\<rparr>"

definition caller1 :: Caller where
  "caller1 = \<lparr>now = TimeStamp 200, record_now = TimeStamp 201, pthread_self = 7,
              get_native_thread_id = 5, rb_obj_id = (\<lambda>v. v), host = host_fa\<rparr>"

definition caller2 :: Caller where
  "caller2 = \<lparr>now = TimeStamp 300, record_now = TimeStamp 301, pthread_self = 7,
              get_native_thread_id = 5, rb_obj_id = (\<lambda>v. v),
              host = \<lparr>ruby_native_thread_p = True, rb_during_gc = False,
                      profile_frames = (\<lambda>_. 0), profile_lines = (\<lambda>_. 0), profile_count = 0\<rparr>\<rparr>"

definition running_table :: ThreadTable where
  "running_table =
     \<lparr>ThreadTable.frame_list = FrameList_new, ThreadTable.list = [Thread_new caller0 RUNNING 7 1]\<rparr>"

definition stopped_table :: ThreadTable where
  "stopped_table =
     \<lparr>ThreadTable.frame_list = FrameList_new,
      ThreadTable.list =
        [\<lparr>samples = SampleList_new, ruby_thread = 1, ruby_thread_id = 1, pthread_id = 0,
          native_tid = 0, state = STOPPED, state_changed_at = TimeStamp 300,
          Thread.started_at = TimeStamp 100, stopped_at = TimeStamp 300,
          stack_on_suspend_idx = - 1, translator = SampleTranslator_new,
          markers = \<lparr>MarkerTable.list =
            [\<lparr>type = MARKER_THREAD_RUNNING, phase = INTERVAL, timestamp = TimeStamp 100,
              finish = TimeStamp 300, stack_index = - 1\<rparr>,
             \<lparr>type = MARKER_GVL_THREAD_EXITED, phase = INSTANT, timestamp = TimeStamp 301,
              finish = TimeStamp 0, stack_index = - 1\<rparr>]\<rparr>,
          name = []\<rparr>]\<rparr>"

definition tick_fa :: Tick where
  "tick_fa = \<lparr>sample_start = TimeStamp 150, hosts = (\<lambda>_. host_fa), sample_complete = TimeStamp 160\<rparr>"

definition caller3 :: Caller where
  "caller3 = \<lparr>now = TimeStamp 400, record_now = TimeStamp 401, pthread_self = 7,
              get_native_thread_id = 5, rb_obj_id = (\<lambda>v. v), host = host_fa\<rparr>"

definition caller_gc :: Caller where
  "caller_gc = \<lparr>now = TimeStamp 500, record_now = TimeStamp 501, pthread_self = 7,
                get_native_thread_id = 5, rb_obj_id = (\<lambda>v. v),
                host = \<lparr>ruby_native_thread_p = True, rb_during_gc = True,
                        profile_frames = (\<lambda>_. 10), profile_lines = (\<lambda>_. 1), profile_count = 1\<rparr>\<rparr>"

section \<open>Run-length compression of a sample list\<close>

lemma last_cell_update: "ws \<noteq> [] \<Longrightarrow> ws[length ws - Suc 0 := v] = butlast ws @ [v]"
  by (induction ws rule: rev_induct) simp_all

lemma record_sample_merge:
  assumes "SampleList_inv sl" "stacks sl \<noteq> []" "last (stacks sl) = si" "last (threads sl) = tid"
    "last (categories sl) = cat"
  shows "SampleList_record_sample si time tid cat sl
           = sl\<lparr>weights := butlast (weights sl) @ [last (weights sl) + 1]\<rparr>"
proof -
  from assms(1,2) have "weights sl \<noteq> []" by (auto simp: SampleList_inv_def)
  then show ?thesis using assms
    by (simp add: SampleList_record_sample_def SampleList_empty_def SampleList_size_def last_cell_update)
qed

lemma record_sample_append:
  assumes "stacks sl = [] \<or> last (stacks sl) \<noteq> si \<or> last (threads sl) \<noteq> tid \<or> last (categories sl) \<noteq> cat"
  shows "SampleList_record_sample si time tid cat sl
           = sl\<lparr>stacks := stacks sl @ [si], timestamps := timestamps sl @ [time],
                threads := threads sl @ [tid], categories := categories sl @ [cat],
                weights := weights sl @ [1]\<rparr>"
  using assms
  by (auto simp add: SampleList_record_sample_def SampleList_empty_def SampleList_size_def)

lemma record_sample_inv:
  "SampleList_inv sl \<Longrightarrow> SampleList_inv (SampleList_record_sample si time tid cat sl)"
  by (auto simp add: SampleList_record_sample_def SampleList_inv_def)

lemma sint_weight_succ:
  fixes w :: "32 word"
  assumes "sint w < 2147483647"
  shows "sint (w + 1) = sint w + 1"
proof -
  have lo: "- (2 ^ 31) \<le> sint w" using sint_ge[of w] by simp
  have "sint (w + 1) = signed_take_bit 31 (sint w + 1)"
    by (simp add: sint_word_ariths)
  also have "\<dots> = sint w + 1"
    using lo assms by (intro signed_take_bit_int_eq_self) simp_all
  finally show ?thesis .
qed

lemma weight_wraps_at_int_max:
  "sint (last (weights (SampleList_record_sample 5 (TimeStamp 40) 7 CATEGORY_IDLE
      \<lparr>stacks = [5], timestamps = [TimeStamp 10], threads = [7], categories = [CATEGORY_IDLE],
       weights = [2147483647]\<rparr>))) = - 2147483648"
  by (simp add: SampleList_record_sample_def SampleList_empty_def SampleList_size_def)

lemma SampleList_new_inv: "SampleList_inv SampleList_new"
  by (simp add: SampleList_inv_def SampleList_new_def)

text \<open>
  C7. A sample whose stack index, thread id and category equal those of the last entry
  adds 1 to that entry's weight and appends nothing, whatever its time stamp: the
  32-bit weight is incremented, and while it is below \<open>2147483647\<close> its signed value
  grows by exactly 1 and the list keeps its size. Recorded three times in a row on a
  list whose last entry differs (or that is empty), a sample leaves one new entry of
  weight 3, stamped with the first of the three times.
\<close>

theorem C7_run_length_compression:
  assumes "SampleList_inv sl"
  shows "(stacks sl \<noteq> [] \<and> last (stacks sl) = si \<and> last (threads sl) = tid \<and> last (categories sl) = cat
            \<longrightarrow> SampleList_record_sample si time tid cat sl
                  = sl\<lparr>weights := butlast (weights sl) @ [last (weights sl) + 1]\<rparr>)
       \<and> (stacks sl = [] \<or> last (stacks sl) \<noteq> si \<or> last (threads sl) \<noteq> tid \<or> last (categories sl) \<noteq> cat
            \<longrightarrow> SampleList_record_sample si t3 tid cat
                   (SampleList_record_sample si t2 tid cat (SampleList_record_sample si t1 tid cat sl))
                  = sl\<lparr>stacks := stacks sl @ [si], timestamps := timestamps sl @ [t1],
                       threads := threads sl @ [tid], categories := categories sl @ [cat],
                       weights := weights sl @ [3]\<rparr>)
       \<and> (stacks sl \<noteq> [] \<and> last (stacks sl) = si \<and> last (threads sl) = tid \<and> last (categories sl) = cat
            \<and> sint (last (weights sl)) < 2147483647
            \<longrightarrow> sint (last (weights (SampleList_record_sample si time tid cat sl)))
                  = sint (last (weights sl)) + 1
                \<and> SampleList_size (SampleList_record_sample si time tid cat sl) = SampleList_size sl)"
proof (intro conjI impI)
  assume "stacks sl \<noteq> [] \<and> last (stacks sl) = si \<and> last (threads sl) = tid \<and> last (categories sl) = cat"
  then show "SampleList_record_sample si time tid cat sl
                  = sl\<lparr>weights := butlast (weights sl) @ [last (weights sl) + 1]\<rparr>"
    using assms by (simp add: record_sample_merge)
next
  assume a: "stacks sl = [] \<or> last (stacks sl) \<noteq> si \<or> last (threads sl) \<noteq> tid \<or> last (categories sl) \<noteq> cat"
  let ?s1 = "SampleList_record_sample si t1 tid cat sl"
  let ?s2 = "SampleList_record_sample si t2 tid cat ?s1"
  let ?a1 = "sl\<lparr>stacks := stacks sl @ [si], timestamps := timestamps sl @ [t1],
                threads := threads sl @ [tid], categories := categories sl @ [cat],
                weights := weights sl @ [1]\<rparr>"
  let ?a2 = "sl\<lparr>stacks := stacks sl @ [si], timestamps := timestamps sl @ [t1],
                threads := threads sl @ [tid], categories := categories sl @ [cat],
                weights := weights sl @ [2]\<rparr>"
  have e1: "?s1 = ?a1"
    using a by (rule record_sample_append)
  have i1: "SampleList_inv ?s1" using assms by (rule record_sample_inv)
  have i1': "SampleList_inv ?a1" using i1 by (simp only: e1)
  have e2: "SampleList_record_sample si t2 tid cat ?a1 = ?a2"
    by (subst record_sample_merge[OF i1']) simp_all
  have i2: "SampleList_inv ?a2" using record_sample_inv[OF i1', of si t2 tid cat] by (simp only: e2)
  have e3: "SampleList_record_sample si t3 tid cat ?a2
              = sl\<lparr>stacks := stacks sl @ [si], timestamps := timestamps sl @ [t1],
                   threads := threads sl @ [tid], categories := categories sl @ [cat],
                   weights := weights sl @ [3]\<rparr>"
    by (subst record_sample_merge[OF i2]) simp_all
  show "SampleList_record_sample si t3 tid cat ?s2
                  = sl\<lparr>stacks := stacks sl @ [si], timestamps := timestamps sl @ [t1],
                       threads := threads sl @ [tid], categories := categories sl @ [cat],
                       weights := weights sl @ [3]\<rparr>"
    by (simp only: e1 e2 e3)
next
  assume a: "stacks sl \<noteq> [] \<and> last (stacks sl) = si \<and> last (threads sl) = tid \<and> last (categories sl) = cat
            \<and> sint (last (weights sl)) < 2147483647"
  then have m: "SampleList_record_sample si time tid cat sl
                  = sl\<lparr>weights := butlast (weights sl) @ [last (weights sl) + 1]\<rparr>"
    using assms by (simp add: record_sample_merge)
  from a show "sint (last (weights (SampleList_record_sample si time tid cat sl)))
                  = sint (last (weights sl)) + 1"
    unfolding m by (simp add: sint_weight_succ)
next
  assume a: "stacks sl \<noteq> [] \<and> last (stacks sl) = si \<and> last (threads sl) = tid \<and> last (categories sl) = cat
            \<and> sint (last (weights sl)) < 2147483647"
  then have m: "SampleList_record_sample si time tid cat sl
                  = sl\<lparr>weights := butlast (weights sl) @ [last (weights sl) + 1]\<rparr>"
    using assms by (simp add: record_sample_merge)
  show "SampleList_size (SampleList_record_sample si time tid cat sl) = SampleList_size sl"
    unfolding m by (simp add: SampleList_size_def)
qed

theorem C7_run_length_compression_witness:
  "SampleList_inv SampleList_new
   \<and> SampleList_record_sample 5 (TimeStamp 30) 7 CATEGORY_IDLE
       (SampleList_record_sample 5 (TimeStamp 20) 7 CATEGORY_IDLE
          (SampleList_record_sample 5 (TimeStamp 10) 7 CATEGORY_IDLE SampleList_new))
     = \<lparr>stacks = [5], timestamps = [TimeStamp 10], threads = [7], categories = [CATEGORY_IDLE], weights = [3]\<rparr>
   \<and> SampleList_record_sample 5 (TimeStamp 40) 7 CATEGORY_IDLE
       \<lparr>stacks = [5], timestamps = [TimeStamp 10], threads = [7], categories = [CATEGORY_IDLE], weights = [3]\<rparr>
     = \<lparr>stacks = [5], timestamps = [TimeStamp 10], threads = [7], categories = [CATEGORY_IDLE], weights = [4]\<rparr>
   \<and> sint (3 :: 32 word) < 2147483647
   \<and> sint (last (weights (SampleList_record_sample 5 (TimeStamp 40) 7 CATEGORY_IDLE
       \<lparr>stacks = [5], timestamps = [TimeStamp 10], threads = [7], categories = [CATEGORY_IDLE], weights = [3]\<rparr>)))
     = 4"
proof -
  have i0: "SampleList_inv SampleList_new" by (rule SampleList_new_inv)
  let ?sl = "\<lparr>stacks = [5], timestamps = [TimeStamp 10], threads = [7], categories = [CATEGORY_IDLE], weights = [3]\<rparr>"
  have i1: "SampleList_inv ?sl" by (simp add: SampleList_inv_def)
  from C7_run_length_compression[OF i0, of 5 7 CATEGORY_IDLE "TimeStamp 0" "TimeStamp 30" "TimeStamp 20" "TimeStamp 10"]
       C7_run_length_compression[OF i1, of 5 7 CATEGORY_IDLE "TimeStamp 40" "TimeStamp 30" "TimeStamp 20" "TimeStamp 10"]
  show ?thesis using i0 by (simp add: SampleList_new_def)
qed

section \<open>Usage errors of start and stop\<close>

text \<open>
  C9. On a collector that is not running, \<^verbatim>\<open>stop\<close> raises the RuntimeError
  "collector not running" and the collector is as before, for \<^verbatim>\<open>BaseCollector::stop\<close>
  and for every override; \<^verbatim>\<open>start\<close> succeeds there, records the start time and sets
  \<^verbatim>\<open>running\<close>. On a running collector \<^verbatim>\<open>start\<close> returns false, \<^verbatim>\<open>collector_start\<close> raises
  "already running", and the collector is as before.
\<close>

theorem C9_start_stop_usage_errors:
  fixes c :: "'a BaseCollector_scheme"
  shows "(\<not> running c \<longrightarrow>
            collector_stop BaseCollector_stop c = (Inl (RbRuntimeError ''collector not running''), c)
          \<and> collector_stop (override_stop rest_stop) c = (Inl (RbRuntimeError ''collector not running''), c)
          \<and> collector_start (BaseCollector_start clock) c
              = (Inr Qtrue, c\<lparr>BaseCollector.started_at := clock, running := True\<rparr>)
          \<and> collector_start (override_start rest_start clock) c
              = (Inr Qtrue, rest_start (c\<lparr>BaseCollector.started_at := clock, running := True\<rparr>)))
       \<and> (running c \<longrightarrow>
            collector_start (BaseCollector_start clock) c = (Inl (RbRuntimeError ''already running''), c)
          \<and> collector_start (override_start rest_start clock) c = (Inl (RbRuntimeError ''already running''), c))"
  by (simp add: collector_stop_def collector_start_def BaseCollector_stop_def BaseCollector_start_def
        override_stop_def override_start_def)

theorem C9_start_stop_usage_errors_witness:
  "collector_stop BaseCollector_stop collector0 = (Inl (RbRuntimeError ''collector not running''), collector0)
   \<and> collector_start (BaseCollector_start (TimeStamp 5)) collector0
        = (Inr Qtrue, \<lparr>running = True, BaseCollector.frame_list = FrameList_new, BaseCollector.started_at = TimeStamp 5\<rparr>)
   \<and> collector_start (BaseCollector_start (TimeStamp 9))
        \<lparr>running = True, BaseCollector.frame_list = FrameList_new, BaseCollector.started_at = TimeStamp 5\<rparr>
        = (Inl (RbRuntimeError ''already running''),
           \<lparr>running = True, BaseCollector.frame_list = FrameList_new, BaseCollector.started_at = TimeStamp 5\<rparr>)"
  using C9_start_stop_usage_errors[of collector0 "Pair Qnil" "TimeStamp 5" id]
        C9_start_stop_usage_errors[of "\<lparr>running = True, BaseCollector.frame_list = FrameList_new, BaseCollector.started_at = TimeStamp 5\<rparr>" "Pair Qnil" "TimeStamp 9" id]
  by (simp add: collector0_def)

section \<open>The schedule of the sampler loop\<close>

lemma next_schedule_cases:
  "next_schedule prev interval complete =
     (if TimeStamp_less (TimeStamp_plus prev interval) complete
      then TimeStamp_plus complete interval else TimeStamp_plus prev interval)"
  by (simp add: next_schedule_def Let_def)

lemma plus_no_overflow_le:
  fixes a b :: "64 word"
  assumes "unat a + unat b < 2 ^ 64"
  shows "a \<le> a + b"
proof -
  have "unat (a + b) = unat a + unat b" using assms by (simp add: unat_add_lem[THEN iffD1])
  then show ?thesis by (simp add: word_le_nat_alt)
qed

lemma run_loop_snoc:
  "sample_thread_run_loop interval s smp tt (ticks @ [tick]) =
     (case sample_thread_run_loop interval s smp tt ticks of
        Inl e \<Rightarrow> Inl e
      | Inr (tt1, smp1, s1) \<Rightarrow>
          (case sample_threads (hosts tick) (sample_start tick) (ThreadTable.frame_list tt1) smp1 (ThreadTable.list tt1) of
             Inl e \<Rightarrow> Inl e
           | Inr (fl', smp', ts') \<Rightarrow>
               Inr (tt1\<lparr>ThreadTable.frame_list := fl', ThreadTable.list := ts'\<rparr>, smp',
                    next_schedule s1 interval (sample_complete tick))))"
  by (induction ticks arbitrary: s smp tt) (auto split: sum.splits)

text \<open>
  C8. Each iteration of the sampler loop moves the schedule to \<open>next_schedule\<close> of the
  schedule it found: the previous scheduled tick plus the interval, unless that lies
  before the time the tick completed, and then the completion time plus the interval.
  Short of a wrap of the 64-bit clock, the new schedule is never before the completion
  time, so no backlog of missed ticks builds up; after a late tick (with a non-zero
  interval) it lies strictly after it, so no catch-up tick follows at once.
\<close>

theorem C8_drift_compensated_schedule:
  "(sample_thread_run_loop interval s smp tt ticks = Inr (tt1, smp1, s1)
      \<and> sample_thread_run_loop interval s smp tt (ticks @ [tick]) = Inr (tt2, smp2, s2)
      \<longrightarrow> s2 = next_schedule s1 interval (sample_complete tick))
   \<and> (\<not> TimeStamp_less (TimeStamp_plus prev interval) complete
        \<longrightarrow> next_schedule prev interval complete = TimeStamp_plus prev interval)
   \<and> (TimeStamp_less (TimeStamp_plus prev interval) complete
        \<longrightarrow> next_schedule prev interval complete = TimeStamp_plus complete interval)
   \<and> (unat (value_ns complete) + unat (value_ns interval) < 2 ^ 64
        \<longrightarrow> TimeStamp_less_eq complete (next_schedule prev interval complete)
          \<and> (TimeStamp_less (TimeStamp_plus prev interval) complete \<and> value_ns interval \<noteq> 0
               \<longrightarrow> TimeStamp_less complete (next_schedule prev interval complete)))"
proof (intro conjI impI)
  assume "sample_thread_run_loop interval s smp tt ticks = Inr (tt1, smp1, s1)
      \<and> sample_thread_run_loop interval s smp tt (ticks @ [tick]) = Inr (tt2, smp2, s2)"
  then show "s2 = next_schedule s1 interval (sample_complete tick)"
    by (auto simp add: run_loop_snoc split: sum.splits)
next
  assume "\<not> TimeStamp_less (TimeStamp_plus prev interval) complete"
  then show "next_schedule prev interval complete = TimeStamp_plus prev interval"
    by (simp add: next_schedule_cases)
next
  assume "TimeStamp_less (TimeStamp_plus prev interval) complete"
  then show "next_schedule prev interval complete = TimeStamp_plus complete interval"
    by (simp add: next_schedule_cases)
next
  assume no: "unat (value_ns complete) + unat (value_ns interval) < 2 ^ 64"
  then have le: "value_ns complete \<le> value_ns complete + value_ns interval"
    by (rule plus_no_overflow_le)
  show "TimeStamp_less_eq complete (next_schedule prev interval complete)"
    using le by (auto simp add: next_schedule_cases TimeStamp_less_eq_def TimeStamp_less_def TimeStamp_plus_def)
next
  assume no: "unat (value_ns complete) + unat (value_ns interval) < 2 ^ 64"
  assume b: "TimeStamp_less (TimeStamp_plus prev interval) complete \<and> value_ns interval \<noteq> 0"
  have "unat (value_ns complete + value_ns interval) = unat (value_ns complete) + unat (value_ns interval)"
    using no by (simp add: unat_add_lem[THEN iffD1])
  moreover have "unat (value_ns interval) \<noteq> 0" using b by (simp add: unat_eq_0)
  ultimately have "value_ns complete < value_ns complete + value_ns interval"
    by (simp add: word_less_nat_alt)
  then show "TimeStamp_less complete (next_schedule prev interval complete)"
    using b by (simp add: next_schedule_cases TimeStamp_less_def TimeStamp_plus_def)
qed

theorem C8_drift_compensated_schedule_witness:
  "sample_thread_run_loop (TimeStamp 50) (TimeStamp 100) RawSample_new table0 [] = Inr (table0, RawSample_new, TimeStamp 100)
   \<and> sample_thread_run_loop (TimeStamp 50) (TimeStamp 100) RawSample_new table0 ([] @ [tick0])
        = Inr (table0, RawSample_new, TimeStamp 250)
   \<and> TimeStamp 250 = next_schedule (TimeStamp 100) (TimeStamp 50) (sample_complete tick0)
   \<and> next_schedule (TimeStamp 100) (TimeStamp 50) (TimeStamp 120) = TimeStamp 150
   \<and> next_schedule (TimeStamp 100) (TimeStamp 50) (TimeStamp 200) = TimeStamp 250
   \<and> TimeStamp_less (TimeStamp 200) (next_schedule (TimeStamp 100) (TimeStamp 50) (TimeStamp 200))"
proof -
  have n1: "next_schedule (TimeStamp 100) (TimeStamp 50) (TimeStamp 200) = TimeStamp 250"
    by (simp add: next_schedule_def TimeStamp_plus_def TimeStamp_less_def)
  have l0: "sample_thread_run_loop (TimeStamp 50) (TimeStamp 100) RawSample_new table0 [] = Inr (table0, RawSample_new, TimeStamp 100)"
    by simp
  have l1: "sample_thread_run_loop (TimeStamp 50) (TimeStamp 100) RawSample_new table0 ([] @ [tick0])
        = Inr (table0, RawSample_new, TimeStamp 250)"
    by (simp add: table0_def tick0_def n1)
  have b: "TimeStamp_less (TimeStamp_plus (TimeStamp 100) (TimeStamp 50)) (TimeStamp 200)"
    by (simp add: TimeStamp_plus_def TimeStamp_less_def)
  have nb: "\<not> TimeStamp_less (TimeStamp_plus (TimeStamp 100) (TimeStamp 50)) (TimeStamp 120)"
    by (simp add: TimeStamp_plus_def TimeStamp_less_def)
  have no: "unat (value_ns (TimeStamp 200)) + unat (value_ns (TimeStamp 50)) < 2 ^ 64"
    by simp
  have nz: "value_ns (TimeStamp 50) \<noteq> 0" by simp
  note inst = C8_drift_compensated_schedule[of "TimeStamp 50" "TimeStamp 100" RawSample_new table0 "[]" table0
        RawSample_new "TimeStamp 100" tick0 table0 RawSample_new "TimeStamp 250" "TimeStamp 100" "TimeStamp 200"]
  note inst2 = C8_drift_compensated_schedule[of "TimeStamp 50" "TimeStamp 100" RawSample_new table0 "[]" table0
        RawSample_new "TimeStamp 100" tick0 table0 RawSample_new "TimeStamp 250" "TimeStamp 100" "TimeStamp 120"]
  have a1: "TimeStamp 250 = next_schedule (TimeStamp 100) (TimeStamp 50) (sample_complete tick0)"
    using inst l0 l1 by blast
  have a2: "next_schedule (TimeStamp 100) (TimeStamp 50) (TimeStamp 120) = TimeStamp_plus (TimeStamp 100) (TimeStamp 50)"
    using inst2 nb by blast
  have a3: "next_schedule (TimeStamp 100) (TimeStamp 50) (TimeStamp 200) = TimeStamp_plus (TimeStamp 200) (TimeStamp 50)"
    using inst b by blast
  have a4: "TimeStamp_less (TimeStamp 200) (next_schedule (TimeStamp 100) (TimeStamp 50) (TimeStamp 200))"
    using inst b no nz by blast
  have p1: "TimeStamp_plus (TimeStamp 100) (TimeStamp 50) = TimeStamp 150"
    by (simp add: TimeStamp_plus_def)
  have p2: "TimeStamp_plus (TimeStamp 200) (TimeStamp 50) = TimeStamp 250"
    by (simp add: TimeStamp_plus_def)
  show ?thesis using l0 l1 a1 a2 a3 a4 unfolding p1 p2 by blast
qed

section \<open>Invariants of the stack tree\<close>

text \<open>
  Every tree that \<^verbatim>\<open>next_stack_node\<close> builds from the empty one is well formed, and
  each call only makes it grow.
\<close>

declare stack_index_loop.simps [simp del]
declare translate_prefix.simps [simp del]
declare translate_walk.simps [simp del]

lemma wf_tree_new: "wf_tree FrameList_new"
  by (auto simp: wf_tree_def FrameList_new_def StackNode_root_def elim: ptr_ok.elims)

lemma grows_refl: "grows fl fl"
  by (simp add: grows_def)

lemma ptr_ok_grows: "grows fl fl' \<Longrightarrow> ptr_ok fl p \<Longrightarrow> ptr_ok fl' p"
  by (cases p) (auto simp: grows_def)

lemma grows_trans: "grows a b \<Longrightarrow> grows b c \<Longrightarrow> grows a c"
  unfolding grows_def by (meson le_trans ptr_ok_grows[unfolded grows_def])

lemma wf_child:
  assumes "wf_tree fl" "ptr_ok fl p" "children (deref fl p) fr = Some c"
  shows "0 \<le> c" "nat c < length (stack_node_list fl)" "ptr_ok fl (ListNode (nat c))"
    "StackNode.frame (stack_node_list fl ! nat c) = fr"
    "parent (stack_node_list fl ! nat c) = index (deref fl p)"
  using assms unfolding wf_tree_def by auto

lemma wf_index: "wf_tree fl \<Longrightarrow> k < length (stack_node_list fl) \<Longrightarrow> index (stack_node_list fl ! k) = int k"
  by (simp add: wf_tree_def)

lemma wf_index_ptr: "wf_tree fl \<Longrightarrow> ptr_ok fl p \<Longrightarrow> index (deref fl p) = (case p of RootNode \<Rightarrow> - 1 | ListNode k \<Rightarrow> int k)"
  by (cases p) (auto simp: wf_tree_def)

lemma next_stack_node_hit:
  assumes "wf_tree fl" "ptr_ok fl p" "children (deref fl p) fr = Some c"
  shows "next_stack_node fl p fr = Inr (fl, ListNode (nat c))"
  using wf_child(1,2)[OF assms] assms(3)
  by (simp add: next_stack_node_def node_at_def)

lemma deref_set_child_same:
  "ptr_ok fl p \<Longrightarrow> children (deref (set_child fl p fr c) p) = (children (deref fl p))(fr \<mapsto> c)"
  by (cases p) auto

lemma deref_set_child_other:
  "q \<noteq> p \<Longrightarrow> deref (set_child fl p fr c) q = deref fl q"
  by (cases p; cases q) auto

lemma nth_update_any: "xs[i := x] ! j = (if i = j \<and> i < length xs then x else xs ! j)"
  by (cases "i < length xs") (auto simp: nth_list_update list_update_beyond)

lemma deref_set_child_fields:
  "ptr_ok fl q \<Longrightarrow> index (deref (set_child fl p fr c) q) = index (deref fl q)
     \<and> parent (deref (set_child fl p fr c) q) = parent (deref fl q)
     \<and> StackNode.frame (deref (set_child fl p fr c) q) = StackNode.frame (deref fl q)"
  by (cases p; cases q) (auto simp: nth_update_any)

lemma length_set_child: "length (stack_node_list (set_child fl p fr c)) = length (stack_node_list fl)"
  by (cases p) auto


lemma length_grown: "length (stack_node_list (grown fl p fr)) = Suc (length (stack_node_list fl))"
  by (simp add: grown_def Let_def length_set_child)

lemma next_stack_node_miss:
  assumes "children (deref fl p) fr = None"
  shows "next_stack_node fl p fr = Inr (grown fl p fr, ListNode (length (stack_node_list fl)))"
  using assms by (simp add: next_stack_node_def grown_def Let_def node_at_def length_set_child)

lemma ptr_ok_grown: "ptr_ok (grown fl p fr) q \<longleftrightarrow> ptr_ok fl q \<or> q = ListNode (length (stack_node_list fl))"
  by (cases q) (auto simp: length_grown)

lemma deref_grown_old:
  assumes "ptr_ok fl q"
  shows "deref (grown fl p fr) q = deref (set_child fl p fr (int (length (stack_node_list fl)))) q"
  using assms by (cases q) (auto simp: grown_def Let_def nth_append length_set_child)

lemma deref_grown_new:
  assumes "ptr_ok fl p"
  shows "deref (grown fl p fr) (ListNode (length (stack_node_list fl)))
           = StackNode_new fr (int (length (stack_node_list fl))) (index (deref fl p))"
  using assms deref_set_child_fields[OF assms, of p fr "int (length (stack_node_list fl))"]
  by (simp add: grown_def Let_def nth_append length_set_child)

lemma children_grown_old:
  assumes "ptr_ok fl q" "ptr_ok fl p"
  shows "children (deref (grown fl p fr) q)
           = (if q = p then (children (deref fl p))(fr \<mapsto> int (length (stack_node_list fl)))
              else children (deref fl q))"
  using assms by (simp add: deref_grown_old deref_set_child_same deref_set_child_other)

lemma fields_grown_old:
  assumes "ptr_ok fl q"
  shows "index (deref (grown fl p fr) q) = index (deref fl q)"
    "parent (deref (grown fl p fr) q) = parent (deref fl q)"
    "StackNode.frame (deref (grown fl p fr) q) = StackNode.frame (deref fl q)"
  using assms by (simp_all add: deref_grown_old deref_set_child_fields)

lemma grows_grown:
  assumes "ptr_ok fl p" "children (deref fl p) fr = None"
  shows "grows fl (grown fl p fr)"
  unfolding grows_def
proof (intro conjI allI impI)
  show "length (stack_node_list fl) \<le> length (stack_node_list (grown fl p fr))"
    by (simp add: length_grown)
next
  fix q fr' c
  assume q: "ptr_ok fl q" and c: "children (deref fl q) fr' = Some c"
  show "children (deref (grown fl p fr) q) fr' = Some c"
    using q c assms by (auto simp: children_grown_old)
qed

lemma wf_tree_grown:
  assumes wf: "wf_tree fl" and p: "ptr_ok fl p" and miss: "children (deref fl p) fr = None"
  shows "wf_tree (grown fl p fr)"
proof -
  let ?n = "length (stack_node_list fl)"
  let ?g = "grown fl p fr"
  have idx_p: "index (deref fl p) < int ?n" "- 1 \<le> index (deref fl p)"
    using wf_index_ptr[OF wf p] p by (cases p; simp)+
  have root: "index (root_stack_node ?g) = - 1"
    using fields_grown_old(1)[of fl RootNode p fr] wf by (simp add: wf_tree_def)
  have nodes: "\<forall>k < length (stack_node_list ?g).
           index (stack_node_list ?g ! k) = int k \<and> parent (stack_node_list ?g ! k) < int k"
  proof (intro allI impI)
    fix k assume "k < length (stack_node_list ?g)"
    then have "k < ?n \<or> k = ?n" by (auto simp: length_grown)
    then consider "k < ?n" | "k = ?n" by blast
    then show "index (stack_node_list ?g ! k) = int k \<and> parent (stack_node_list ?g ! k) < int k"
    proof cases
      case 1
      then have ok: "ptr_ok fl (ListNode k)" by simp
      from fields_grown_old(1,2)[OF ok, of p fr] wf 1 show ?thesis
        by (simp add: wf_tree_def)
    next
      case 2
      from deref_grown_new[OF p, of fr] idx_p show ?thesis
        by (simp add: 2 StackNode_new_def)
    qed
  qed
  have kids: "\<forall>q fr' c. ptr_ok ?g q \<longrightarrow> children (deref ?g q) fr' = Some c \<longrightarrow>
           0 \<le> c \<and> nat c < length (stack_node_list ?g)
           \<and> StackNode.frame (stack_node_list ?g ! nat c) = fr'
           \<and> parent (stack_node_list ?g ! nat c) = index (deref ?g q)"
  proof (intro allI impI)
    fix q fr' c
    assume q: "ptr_ok ?g q" and c: "children (deref ?g q) fr' = Some c"
    from q consider (old) "ptr_ok fl q" | (new) "q = ListNode ?n" by (auto simp: ptr_ok_grown)
    then show "0 \<le> c \<and> nat c < length (stack_node_list ?g)
           \<and> StackNode.frame (stack_node_list ?g ! nat c) = fr'
           \<and> parent (stack_node_list ?g ! nat c) = index (deref ?g q)"
    proof cases
      case new
      with c deref_grown_new[OF p, of fr] show ?thesis by (simp add: StackNode_new_def)
    next
      case old
      show ?thesis
      proof (cases "q = p \<and> fr' = fr")
        case True
        with c old p have ceq: "c = int ?n" by (simp add: children_grown_old)
        from deref_grown_new[OF p, of fr] fields_grown_old(1)[OF p, of p fr] True
        show ?thesis by (simp add: ceq length_grown StackNode_new_def)
      next
        case False
        with c old p have c0: "children (deref fl q) fr' = Some c"
          by (auto simp: children_grown_old split: if_splits)
        note w = wf_child[OF wf old c0]
        from w(3) have f: "StackNode.frame (deref ?g (ListNode (nat c))) = StackNode.frame (deref fl (ListNode (nat c)))"
          "parent (deref ?g (ListNode (nat c))) = parent (deref fl (ListNode (nat c)))"
          by (rule fields_grown_old(3), rule fields_grown_old(2))
        from w f fields_grown_old(1)[OF old, of p fr] show ?thesis
          by (simp add: length_grown)
      qed
    qed
  qed
  show ?thesis unfolding wf_tree_def using root nodes kids by blast
qed

lemma next_stack_node_ok:
  assumes wf: "wf_tree fl" and p: "ptr_ok fl p"
  shows "\<exists>fl' k. next_stack_node fl p fr = Inr (fl', ListNode k) \<and> wf_tree fl' \<and> grows fl fl'
            \<and> k < length (stack_node_list fl') \<and> children (deref fl' p) fr = Some (int k)"
proof (cases "children (deref fl p) fr")
  case None
  have "children (deref (grown fl p fr) p) fr = Some (int (length (stack_node_list fl)))"
    using p by (simp add: children_grown_old)
  then show ?thesis
    using next_stack_node_miss[OF None] wf_tree_grown[OF wf p None] grows_grown[OF p None]
    by (simp add: length_grown)
next
  case (Some c)
  from wf_child(1,2)[OF wf p Some] next_stack_node_hit[OF wf p Some] Some wf show ?thesis
    by (auto simp: grows_refl)
qed


lemma find_node_append:
  "find_node fl p (xs @ ys) = (case find_node fl p xs of None \<Rightarrow> None | Some q \<Rightarrow> find_node fl q ys)"
  by (induction xs arbitrary: p) (auto split: option.splits)

lemma walk_append:
  "walk fl p (xs @ ys) = (case walk fl p xs of Inl e \<Rightarrow> Inl e | Inr (fl', q) \<Rightarrow> walk fl' q ys)"
  by (induction xs arbitrary: fl p) (auto split: sum.splits)

lemma find_node_ptr_ok:
  assumes "wf_tree fl" "ptr_ok fl p" "find_node fl p frs = Some q"
  shows "ptr_ok fl q"
  using assms
proof (induction frs arbitrary: p)
  case Nil
  then show ?case by simp
next
  case (Cons fr frs)
  from Cons.prems(3) obtain c where c: "children (deref fl p) fr = Some c"
    and r: "find_node fl (ListNode (nat c)) frs = Some q"
    by (auto split: option.splits)
  from wf_child(3)[OF Cons.prems(1,2) c] r Cons.IH Cons.prems(1) show ?case by blast
qed

lemma find_node_grows:
  assumes "wf_tree fl" "grows fl fl'" "ptr_ok fl p" "find_node fl p frs = Some q"
  shows "find_node fl' p frs = Some q"
  using assms
proof (induction frs arbitrary: p)
  case Nil
  then show ?case by simp
next
  case (Cons fr frs)
  from Cons.prems(4) obtain c where c: "children (deref fl p) fr = Some c"
    and r: "find_node fl (ListNode (nat c)) frs = Some q"
    by (auto split: option.splits)
  from Cons.prems(2,3) c have c': "children (deref fl' p) fr = Some c"
    by (auto simp: grows_def)
  from wf_child(3)[OF Cons.prems(1,3) c] r Cons.IH Cons.prems(1,2)
  have "find_node fl' (ListNode (nat c)) frs = Some q" by blast
  with c' show ?case by simp
qed

lemma walk_ok:
  assumes "wf_tree fl" "ptr_ok fl p"
  shows "\<exists>fl' q. walk fl p frs = Inr (fl', q) \<and> wf_tree fl' \<and> ptr_ok fl' q \<and> grows fl fl'
           \<and> find_node fl' p frs = Some q"
  using assms
proof (induction frs arbitrary: fl p)
  case Nil
  then show ?case by (simp add: grows_refl)
next
  case (Cons fr frs)
  from next_stack_node_ok[OF Cons.prems, of fr] obtain fl1 k where
    n: "next_stack_node fl p fr = Inr (fl1, ListNode k)" and wf1: "wf_tree fl1" and g1: "grows fl fl1"
    and k: "k < length (stack_node_list fl1)" and c1: "children (deref fl1 p) fr = Some (int k)"
    by blast
  from k have pk: "ptr_ok fl1 (ListNode k)" by simp
  from Cons.IH[OF wf1 pk] obtain fl' q where
    w: "walk fl1 (ListNode k) frs = Inr (fl', q)" and wf': "wf_tree fl'" and q: "ptr_ok fl' q"
    and g': "grows fl1 fl'" and f: "find_node fl' (ListNode k) frs = Some q"
    by blast
  have p1: "ptr_ok fl1 p" using g1 Cons.prems(2) by (rule ptr_ok_grows)
  from g' p1 c1 have c': "children (deref fl' p) fr = Some (int k)" by (auto simp: grows_def)
  from n w wf' q grows_trans[OF g1 g'] c' f show ?case by simp
qed

lemma walk_found:
  assumes "wf_tree fl" "ptr_ok fl p" "find_node fl p frs = Some q"
  shows "walk fl p frs = Inr (fl, q)"
  using assms
proof (induction frs arbitrary: p)
  case Nil
  then show ?case by simp
next
  case (Cons fr frs)
  from Cons.prems(3) obtain c where c: "children (deref fl p) fr = Some c"
    and r: "find_node fl (ListNode (nat c)) frs = Some q"
    by (auto split: option.splits)
  from next_stack_node_hit[OF Cons.prems(1,2) c] wf_child(3)[OF Cons.prems(1,2) c] r Cons.IH Cons.prems(1)
  show ?case by simp
qed

section \<open>The two loops as walks over a list of frames\<close>

lemma length_stack_frames [simp]: "length (stack_frames s) = nat (RawSample.len s)"
  by (simp add: stack_frames_def)

lemma length_cache_frames [simp]: "length (cache_frames tr) = nat (SampleTranslator.len tr)"
  by (simp add: cache_frames_def)

lemma cache_frames_nth: "j < nat (SampleTranslator.len tr) \<Longrightarrow> cache_frames tr ! j = SampleTranslator.frames tr j"
  by (simp add: cache_frames_def)

lemma RawSample_frame_nth:
  assumes "0 \<le> i" "i < RawSample.len s"
  shows "RawSample_frame s i = Inr (stack_frames s ! nat i)"
proof -
  have "nat (RawSample.len s - i - 1) = nat (RawSample.len s) - 1 - nat i"
    using assms by linarith
  moreover have "nat i < nat (RawSample.len s)" using assms by linarith
  ultimately show ?thesis using assms
    by (simp add: RawSample_frame_def stack_frames_def Let_def)
qed

lemma stack_index_loop_walk:
  "0 \<le> i \<Longrightarrow> stack_index_loop s i fl p = walk fl p (drop (nat i) (stack_frames s))"
proof (induction s i fl p rule: stack_index_loop.induct)
  case (1 stack i fl node)
  show ?case
  proof (cases "i < RawSample_size stack")
    case True
    then have lt: "i < RawSample.len stack" by (simp add: RawSample_size_def)
    have fr: "RawSample_frame stack i = Inr (stack_frames stack ! nat i)"
      using "1.prems" lt by (rule RawSample_frame_nth)
    have ni: "nat i < length (stack_frames stack)" using "1.prems" lt by simp
    have d: "drop (nat i) (stack_frames stack)
               = stack_frames stack ! nat i # drop (nat (i + 1)) (stack_frames stack)"
      using Cons_nth_drop_Suc[OF ni] "1.prems" by (simp add: nat_add_distrib)
    show ?thesis
    proof (cases "next_stack_node fl node (stack_frames stack ! nat i)")
      case (Inl e)
      then show ?thesis using True fr d by (simp add: stack_index_loop.simps[of stack i])
    next
      case (Inr r)
      obtain fl' node' where r: "r = (fl', node')" by (cases r)
      have "stack_index_loop stack (i + 1) fl' node'
              = walk fl' node' (drop (nat (i + 1)) (stack_frames stack))"
        using "1.IH"[OF True fr Inr r[symmetric]] "1.prems" by simp
      then show ?thesis using True fr d Inr r by (simp add: stack_index_loop.simps[of stack i])
    qed
  next
    case False
    then have "length (stack_frames stack) \<le> nat i" using "1.prems"
      by (simp add: RawSample_size_def)
    then show ?thesis using False by (simp add: stack_index_loop.simps[of stack i])
  qed
qed

lemma translate_prefix_ok:
  assumes "0 \<le> i" "i \<le> SampleTranslator.len tr" "i \<le> RawSample.len s"
    "take (nat i) (cache_frames tr) = take (nat i) (stack_frames s)"
  shows "\<exists>j. translate_prefix tr s i = Inr j \<and> i \<le> j \<and> j \<le> SampleTranslator.len tr
              \<and> j \<le> RawSample.len s
              \<and> take (nat j) (cache_frames tr) = take (nat j) (stack_frames s)"
  using assms
proof (induction tr s i rule: translate_prefix.induct)
  case (1 tr sample i)
  show ?case
  proof (cases "i < SampleTranslator.len tr \<and> i < RawSample_size sample")
    case True
    then have lt: "i < SampleTranslator.len tr" "i < RawSample.len sample"
      by (simp_all add: RawSample_size_def)
    have fr: "RawSample_frame sample i = Inr (stack_frames sample ! nat i)"
      using "1.prems"(1) lt(2) by (rule RawSample_frame_nth)
    show ?thesis
    proof (cases "SampleTranslator.frames tr (nat i) \<noteq> stack_frames sample ! nat i")
      case True
      then show ?thesis using \<open>i < SampleTranslator.len tr \<and> i < RawSample_size sample\<close> fr "1.prems"
        by (simp add: translate_prefix.simps[of tr sample i])
    next
      case False
      have n1: "nat i < length (cache_frames tr)" "nat i < length (stack_frames sample)"
        using lt "1.prems"(1) by simp_all
      have "take (Suc (nat i)) (cache_frames tr) = take (Suc (nat i)) (stack_frames sample)"
        using False "1.prems"(4) n1 cache_frames_nth[of "nat i" tr]
        by (simp add: take_Suc_conv_app_nth)
      then have t: "take (nat (i + 1)) (cache_frames tr) = take (nat (i + 1)) (stack_frames sample)"
        using "1.prems"(1) by (simp add: nat_add_distrib)
      from "1.IH"[OF True fr False _ _ _ t] lt "1.prems"(1)
      obtain j where "translate_prefix tr sample (i + 1) = Inr j" "i + 1 \<le> j"
        "j \<le> SampleTranslator.len tr" "j \<le> RawSample.len sample"
        "take (nat j) (cache_frames tr) = take (nat j) (stack_frames sample)"
        by auto
      then show ?thesis using True fr False
        by (simp add: translate_prefix.simps[of tr sample i])
    qed
  next
    case False
    then have "translate_prefix tr sample i = Inr i"
      by (subst translate_prefix.simps) auto
    then show ?thesis using "1.prems" by simp
  qed
qed

lemma cached_grows:
  assumes "wf_tree fl" "grows fl fl'" "cached fl tr frs n"
  shows "cached fl' tr frs n"
  using assms unfolding cached_def
  by (metis find_node_grows ptr_ok.simps(1))

lemma find_node_snoc:
  assumes "find_node fl RootNode (take n frs) = Some p" "n < length frs"
    "children (deref fl p) (frs ! n) = Some (int k)"
  shows "find_node fl RootNode (take (Suc n) frs) = Some (ListNode k)"
  using assms by (simp add: take_Suc_conv_app_nth find_node_append)

lemma translate_walk_ok:
  assumes "wf_tree fl" "ptr_ok fl p" "0 \<le> i" "i \<le> RawSample.len s"
    "find_node fl RootNode (take (nat i) (stack_frames s)) = Some p"
    "cached fl tr (stack_frames s) (nat i)"
  shows "\<exists>fl' tr' q. translate_walk s i fl tr p = Inr (fl', tr', q, RawSample.len s)
           \<and> walk fl p (drop (nat i) (stack_frames s)) = Inr (fl', q)
           \<and> wf_tree fl' \<and> grows fl fl' \<and> ptr_ok fl' q
           \<and> find_node fl' RootNode (stack_frames s) = Some q
           \<and> cached fl' tr' (stack_frames s) (nat (RawSample.len s))
           \<and> SampleTranslator.len tr' = SampleTranslator.len tr
           \<and> last_stack_index tr' = last_stack_index tr"
  using assms
proof (induction s i fl tr p rule: translate_walk.induct)
  case (1 sample i fl tr node)
  let ?F = "stack_frames sample"
  let ?n = "nat i"
  show ?case
  proof (cases "i < RawSample_size sample")
    case True
    then have lt: "i < RawSample.len sample" by (simp add: RawSample_size_def)
    have fr: "RawSample_frame sample i = Inr (?F ! ?n)"
      using "1.prems"(3) lt by (rule RawSample_frame_nth)
    have n: "?n < length ?F" using "1.prems"(3) lt by simp
    have n1: "nat (i + 1) = Suc ?n" using "1.prems"(3) by (simp add: nat_add_distrib)
    from next_stack_node_ok[OF "1.prems"(1,2), of "?F ! ?n"] obtain fl1 k where
      nx: "next_stack_node fl node (?F ! ?n) = Inr (fl1, ListNode k)" and wf1: "wf_tree fl1"
      and g1: "grows fl fl1" and k: "k < length (stack_node_list fl1)"
      and c1: "children (deref fl1 node) (?F ! ?n) = Some (int k)"
      by blast
    let ?tr1 = "tr\<lparr>SampleTranslator.frames := (SampleTranslator.frames tr)(?n := ?F ! ?n),
                   frame_indexes := (frame_indexes tr)(?n := index (deref fl1 (ListNode k)))\<rparr>"
    have idx: "index (deref fl1 (ListNode k)) = int k" using wf_index[OF wf1 k] by simp
    have pk: "ptr_ok fl1 (ListNode k)" using k by simp
    have f0: "find_node fl1 RootNode (take ?n ?F) = Some node"
      using find_node_grows[OF "1.prems"(1) g1 _ "1.prems"(5)] by simp
    have f1: "find_node fl1 RootNode (take (Suc ?n) ?F) = Some (ListNode k)"
      using f0 n c1 by (rule find_node_snoc)
    have c0: "cached fl1 tr ?F ?n" using "1.prems"(1) g1 "1.prems"(6) by (rule cached_grows)
    have c2: "cached fl1 ?tr1 ?F (Suc ?n)"
      unfolding cached_def
    proof (intro allI impI)
      fix j assume "j < Suc ?n"
      then consider "j < ?n" | "j = ?n" by linarith
      then show "SampleTranslator.frames ?tr1 j = ?F ! j
            \<and> (\<exists>k'. find_node fl1 RootNode (take (Suc j) ?F) = Some (ListNode k')
                    \<and> frame_indexes ?tr1 j = int k')"
      proof cases
        case 1
        with c0 show ?thesis by (simp add: cached_def)
      next
        case 2
        with f1 idx show ?thesis by simp
      qed
    qed
    from "1.IH"[OF True fr nx refl wf1 pk] "1.prems"(3) lt f1 c2 n1
    obtain fl' tr' q where
      r: "translate_walk sample (i + 1) fl1 ?tr1 (ListNode k) = Inr (fl', tr', q, RawSample.len sample)"
      and w: "walk fl1 (ListNode k) (drop (Suc ?n) ?F) = Inr (fl', q)"
      and rest: "wf_tree fl'" "grows fl1 fl'" "ptr_ok fl' q"
        "find_node fl' RootNode ?F = Some q" "cached fl' tr' ?F (nat (RawSample.len sample))"
        "SampleTranslator.len tr' = SampleTranslator.len ?tr1"
        "last_stack_index tr' = last_stack_index ?tr1"
      by auto
    have t: "translate_walk sample i fl tr node = Inr (fl', tr', q, RawSample.len sample)"
      using True fr nx r by (subst translate_walk.simps) simp
    have w': "walk fl node (drop ?n ?F) = Inr (fl', q)"
      using Cons_nth_drop_Suc[OF n, symmetric] nx w by simp
    from t w' rest grows_trans[OF g1 rest(2)] show ?thesis by simp
  next
    case False
    with "1.prems"(4) have e: "i = RawSample.len sample" by (simp add: RawSample_size_def)
    have t: "translate_walk sample i fl tr node = Inr (fl, tr, node, i)"
      using False by (subst translate_walk.simps) simp
    from t e "1.prems" show ?thesis by (simp add: grows_refl)
  qed
qed

lemma cached_fields:
  "cached fl (tr\<lparr>SampleTranslator.len := a, last_stack_index := b\<rparr>) frs n = cached fl tr frs n"
  by (simp add: cached_def)

lemma tr_inv_grows: "wf_tree fl \<Longrightarrow> grows fl fl' \<Longrightarrow> tr_inv fl tr \<Longrightarrow> tr_inv fl' tr"
  by (auto simp: tr_inv_def intro: cached_grows)

lemma tr_inv_new: "tr_inv fl SampleTranslator_new"
  by (simp add: tr_inv_def SampleTranslator_new_def cached_def)

lemma translate_ok:
  assumes wf: "wf_tree fl" and inv: "tr_inv fl tr" and s: "sample_ok s"
  shows "\<exists>fl' tr' q. SampleTranslator_translate fl tr s = Inr (fl', tr', index (deref fl' q))
           \<and> walk fl RootNode (stack_frames s) = Inr (fl', q)
           \<and> wf_tree fl' \<and> grows fl fl' \<and> tr_inv fl' tr' \<and> ptr_ok fl' q
           \<and> find_node fl' RootNode (stack_frames s) = Some q
           \<and> SampleTranslator.len tr' = RawSample.len s
           \<and> last_stack_index tr' = index (deref fl' q)"
proof -
  let ?F = "stack_frames s"
  let ?C = "cache_frames tr"
  from inv have len0: "0 \<le> SampleTranslator.len tr"
    and ch: "cached fl tr ?C (nat (SampleTranslator.len tr))"
    by (simp_all add: tr_inv_def)
  from s have slen: "0 \<le> RawSample.len s" by (simp add: sample_ok_def)
  from translate_prefix_ok[of 0 tr s] len0 slen obtain j where
    pj: "translate_prefix tr s 0 = Inr j" and j0: "0 \<le> j" and jt: "j \<le> SampleTranslator.len tr"
    and js: "j \<le> RawSample.len s" and tk: "take (nat j) ?C = take (nat j) ?F"
    by auto
  let ?n = "nat j"
  have nC: "?n \<le> length ?C" and nF: "?n \<le> length ?F" using jt js j0 by simp_all
  have chF: "cached fl tr ?F ?n"
    unfolding cached_def
  proof (intro allI impI)
    fix i assume i: "i < ?n"
    then have iC: "i < nat (SampleTranslator.len tr)" using jt by linarith
    from ch iC have a: "SampleTranslator.frames tr i = ?C ! i"
      and b: "\<exists>k. find_node fl RootNode (take (Suc i) ?C) = Some (ListNode k) \<and> frame_indexes tr i = int k"
      by (simp_all add: cached_def)
    have "?C ! i = take ?n ?C ! i" using i by simp
    also have "\<dots> = ?F ! i" using i tk by simp
    finally have a': "SampleTranslator.frames tr i = ?F ! i" using a by simp
    have "take (Suc i) ?C = take (Suc i) (take ?n ?C)" using i by (simp add: min_def)
    also have "\<dots> = take (Suc i) ?F" using i tk by (simp add: min_def)
    finally show "SampleTranslator.frames tr i = ?F ! i
        \<and> (\<exists>k. find_node fl RootNode (take (Suc i) ?F) = Some (ListNode k) \<and> frame_indexes tr i = int k)"
      using a' b by simp
  qed
  obtain p where
    pn: "(if j = 0 then Inr RootNode else node_at fl (frame_indexes tr (nat (j - 1)))) = Inr p"
    and pok: "ptr_ok fl p" and pf: "find_node fl RootNode (take ?n ?F) = Some p"
  proof (cases "j = 0")
    case True
    then show ?thesis using that[of RootNode] by simp
  next
    case False
    then have pos: "nat (j - 1) < ?n" "Suc (nat (j - 1)) = ?n" using j0 by linarith+
    from chF pos obtain k where
      fk: "find_node fl RootNode (take ?n ?F) = Some (ListNode k)"
      and ik: "frame_indexes tr (nat (j - 1)) = int k"
      unfolding cached_def by (metis)
    have "ptr_ok fl (ListNode k)" using find_node_ptr_ok[OF wf _ fk] by simp
    then show ?thesis using that[of "ListNode k"] False fk ik by (simp add: node_at_def)
  qed
  from translate_walk_ok[OF wf pok j0 js pf chF] obtain fl' tr' q where
    tw: "translate_walk s j fl tr p = Inr (fl', tr', q, RawSample.len s)"
    and w: "walk fl p (drop ?n ?F) = Inr (fl', q)"
    and rest: "wf_tree fl'" "grows fl fl'" "ptr_ok fl' q" "find_node fl' RootNode ?F = Some q"
      "cached fl' tr' ?F (nat (RawSample.len s))"
    by blast
  let ?tr = "tr'\<lparr>SampleTranslator.len := RawSample.len s, last_stack_index := index (deref fl' q)\<rparr>"
  have res: "SampleTranslator_translate fl tr s = Inr (fl', ?tr, index (deref fl' q))"
    using pj pn tw by (simp add: SampleTranslator_translate_def Let_def)
  have cf: "cache_frames ?tr = ?F"
  proof (rule nth_equalityI)
    show "length (cache_frames ?tr) = length ?F" by simp
  next
    fix i assume "i < length (cache_frames ?tr)"
    then have i: "i < nat (RawSample.len s)" by simp
    with rest(5) have "SampleTranslator.frames tr' i = ?F ! i" by (simp add: cached_def)
    then show "cache_frames ?tr ! i = ?F ! i" using i by (simp add: cache_frames_def)
  qed
  have inv': "tr_inv fl' ?tr"
    using rest(5) slen unfolding tr_inv_def cf by (simp add: cached_fields)
  have "walk fl RootNode (take ?n ?F @ drop ?n ?F) = Inr (fl', q)"
    using walk_found[OF wf _ pf] w by (simp only: walk_append) simp
  then have wk: "walk fl RootNode ?F = Inr (fl', q)" by simp
  from res wk rest inv' show ?thesis by (intro exI[of _ fl'] exI[of _ ?tr] exI[of _ q]) simp
qed

lemma stack_index_ok:
  assumes wf: "wf_tree fl" and s: "sample_ok s" and ne: "1 \<le> RawSample.len s"
  shows "\<exists>fl' q. FrameList_stack_index fl s = Inr (fl', index (deref fl' q))
           \<and> walk fl RootNode (stack_frames s) = Inr (fl', q)
           \<and> wf_tree fl' \<and> grows fl fl' \<and> ptr_ok fl' q
           \<and> find_node fl' RootNode (stack_frames s) = Some q"
proof -
  from walk_ok[OF wf, of RootNode "stack_frames s"] obtain fl' q where
    w: "walk fl RootNode (stack_frames s) = Inr (fl', q)" and rest: "wf_tree fl'" "ptr_ok fl' q"
      "grows fl fl'" "find_node fl' RootNode (stack_frames s) = Some q"
    by auto
  have "stack_index_loop s 0 fl RootNode = Inr (fl', q)"
    using stack_index_loop_walk[of 0 s fl RootNode] w by simp
  then have "FrameList_stack_index fl s = Inr (fl', index (deref fl' q))"
    using ne by (simp add: FrameList_stack_index_def RawSample_empty_def)
  with w rest show ?thesis by blast
qed

section \<open>Capture sessions\<close>

declare path_to_root.simps [simp del]

lemma sess_inv_new: "sess_inv session_new"
  by (simp add: sess_inv_def session_new_def wf_tree_new tr_inv_new)

lemma first_difference_shared:
  "first_difference xs ys = Some k \<Longrightarrow> shared_prefix_length xs ys = k"
  by (induction xs ys arbitrary: k rule: first_difference.induct) (auto split: if_splits)

lemma find_node_nonempty:
  "find_node fl p frs = Some q \<Longrightarrow> frs \<noteq> [] \<Longrightarrow> \<exists>k. q = ListNode k"
  by (induction frs arbitrary: p) (auto split: option.splits, metis find_node.simps(1) option.inject)

lemma found_index:
  assumes "wf_tree fl" "find_node fl RootNode frs = Some q" "frs \<noteq> []"
  shows "\<exists>k. q = ListNode k \<and> index (deref fl q) = int k"
proof -
  from find_node_nonempty[OF assms(2,3)] obtain k where k: "q = ListNode k" by blast
  have "ptr_ok fl q" using find_node_ptr_ok[OF assms(1) _ assms(2)] by simp
  with k wf_index[OF assms(1), of k] show ?thesis by simp
qed

lemma stack_frames_nonempty: "1 \<le> RawSample.len s \<Longrightarrow> stack_frames s \<noteq> []"
  by (metis length_stack_frames list.size(3) nat_0_iff not_one_le_zero order.trans)

lemma session_call_ok:
  assumes inv: "sess_inv st" and ok: "call_ok c"
  shows "\<exists>st' i. session_call st c = Inr (st', i) \<and> sess_inv st' \<and> grows (tree st) (tree st')
           \<and> (1 \<le> RawSample.len (call_sample c) \<longrightarrow>
                (\<exists>k. find_node (tree st') RootNode (stack_frames (call_sample c)) = Some (ListNode k)
                     \<and> i = int k))"
proof (cases c)
  case (Translate n s)
  from inv have wf: "wf_tree (tree st)" and ti: "\<And>k. tr_inv (tree st) (translators st k)"
    by (simp_all add: sess_inv_def)
  from ok Translate have s: "sample_ok s" by simp
  from translate_ok[OF wf ti s, of n] obtain fl' tr' q where
    t: "SampleTranslator_translate (tree st) (translators st n) s = Inr (fl', tr', index (deref fl' q))"
    and r: "wf_tree fl'" "grows (tree st) fl'" "tr_inv fl' tr'"
      "find_node fl' RootNode (stack_frames s) = Some q"
    by blast
  let ?st = "st\<lparr>tree := fl', translators := (translators st)(n := tr')\<rparr>"
  have c: "session_call st c = Inr (?st, index (deref fl' q))" using t Translate by simp
  have i': "sess_inv ?st" using r(1,3) tr_inv_grows[OF wf r(2) ti] by (simp add: sess_inv_def)
  have f: "1 \<le> RawSample.len s \<longrightarrow>
             (\<exists>k. find_node fl' RootNode (stack_frames s) = Some (ListNode k) \<and> index (deref fl' q) = int k)"
    using found_index[OF r(1,4)] r(4) stack_frames_nonempty[of s] by auto
  from c i' r(2) f Translate show ?thesis by simp
next
  case (StackIndex s)
  from inv have wf: "wf_tree (tree st)" and ti: "\<And>k. tr_inv (tree st) (translators st k)"
    by (simp_all add: sess_inv_def)
  from ok StackIndex have s: "sample_ok s" "1 \<le> RawSample.len s" by simp_all
  from stack_index_ok[OF wf s] obtain fl' q where
    t: "FrameList_stack_index (tree st) s = Inr (fl', index (deref fl' q))"
    and r: "wf_tree fl'" "grows (tree st) fl'" "find_node fl' RootNode (stack_frames s) = Some q"
    by blast
  let ?st = "st\<lparr>tree := fl'\<rparr>"
  have c: "session_call st c = Inr (?st, index (deref fl' q))" using t StackIndex by simp
  have i': "sess_inv ?st" using r(1) tr_inv_grows[OF wf r(2) ti] by (simp add: sess_inv_def)
  have f: "\<exists>k. find_node fl' RootNode (stack_frames s) = Some (ListNode k) \<and> index (deref fl' q) = int k"
    using found_index[OF r(1,3)] r(3) stack_frames_nonempty[OF s(2)] by auto
  from c i' r(2) f StackIndex show ?thesis by simp
qed

lemma session_run_ok:
  assumes "sess_inv st" "list_all call_ok cs"
  shows "\<exists>st' outs. session_run st cs = Inr (st', outs) \<and> sess_inv st' \<and> grows (tree st) (tree st')
           \<and> length outs = length cs
           \<and> (\<forall>a<length cs. 1 \<le> RawSample.len (call_sample (cs ! a)) \<longrightarrow>
                (\<exists>k. find_node (tree st') RootNode (stack_frames (call_sample (cs ! a))) = Some (ListNode k)
                     \<and> outs ! a = int k))"
  using assms
proof (induction cs arbitrary: st)
  case Nil
  then show ?case by (simp add: grows_refl)
next
  case (Cons c cs)
  from Cons.prems have ok: "call_ok c" and oks: "list_all call_ok cs" by simp_all
  from session_call_ok[OF Cons.prems(1) ok] obtain st1 i where
    c1: "session_call st c = Inr (st1, i)" and i1: "sess_inv st1" and g1: "grows (tree st) (tree st1)"
    and f1: "1 \<le> RawSample.len (call_sample c) \<longrightarrow>
                (\<exists>k. find_node (tree st1) RootNode (stack_frames (call_sample c)) = Some (ListNode k)
                     \<and> i = int k)"
    by blast
  from Cons.IH[OF i1 oks] obtain st' outs where
    r: "session_run st1 cs = Inr (st', outs)" and i': "sess_inv st'" and g': "grows (tree st1) (tree st')"
    and l: "length outs = length cs"
    and f': "\<forall>a<length cs. 1 \<le> RawSample.len (call_sample (cs ! a)) \<longrightarrow>
                (\<exists>k. find_node (tree st') RootNode (stack_frames (call_sample (cs ! a))) = Some (ListNode k)
                     \<and> outs ! a = int k)"
    by blast
  have wf1: "wf_tree (tree st1)" using i1 by (simp add: sess_inv_def)
  have run: "session_run st (c # cs) = Inr (st', i # outs)" using c1 r by simp
  have all: "\<forall>a<length (c # cs). 1 \<le> RawSample.len (call_sample ((c # cs) ! a)) \<longrightarrow>
                (\<exists>k. find_node (tree st') RootNode (stack_frames (call_sample ((c # cs) ! a))) = Some (ListNode k)
                     \<and> (i # outs) ! a = int k)"
  proof (intro allI impI)
    fix a assume a: "a < length (c # cs)" and ne: "1 \<le> RawSample.len (call_sample ((c # cs) ! a))"
    show "\<exists>k. find_node (tree st') RootNode (stack_frames (call_sample ((c # cs) ! a))) = Some (ListNode k)
                     \<and> (i # outs) ! a = int k"
    proof (cases a)
      case 0
      with ne f1 obtain k where
        "find_node (tree st1) RootNode (stack_frames (call_sample c)) = Some (ListNode k)" "i = int k"
        by auto
      with find_node_grows[OF wf1 g', of RootNode] 0 show ?thesis by auto
    next
      case (Suc a')
      with a ne f' show ?thesis by simp
    qed
  qed
  from run i' grows_trans[OF g1 g'] l all show ?case by simp
qed

lemma node_path_found:
  assumes wf: "wf_tree fl"
  shows "find_node fl RootNode frs = Some q \<Longrightarrow> node_path fl (index (deref fl q)) = frs"
proof (induction frs arbitrary: q rule: rev_induct)
  case Nil
  then have "q = RootNode" by simp
  then have "index (deref fl q) = - 1" using wf by (simp add: wf_tree_def)
  then show ?case by (simp add: node_path_def path_to_root.simps[of fl "- 1"])
next
  case (snoc fr frs)
  from snoc.prems obtain p c where p: "find_node fl RootNode frs = Some p"
    and c: "children (deref fl p) fr = Some c" and q: "q = ListNode (nat c)"
    by (auto simp: find_node_append split: option.splits)
  have pok: "ptr_ok fl p" using find_node_ptr_ok[OF wf _ p] by simp
  note w = wf_child[OF wf pok c]
  have par: "parent (stack_node_list fl ! nat c) < c"
    using wf w(1,2) unfolding wf_tree_def by (metis int_nat_eq)
  have iq: "index (deref fl q) = c" using q wf_index[OF wf w(2)] w(1) by simp
  have "path_to_root fl c = fr # path_to_root fl (index (deref fl p))"
    using w par by (subst path_to_root.simps) simp
  then show ?case using snoc.IH[OF p] iq by (simp add: node_path_def)
qed

lemma stack_frames_raw_of: "stack_frames (raw_of frs) = frs"
  by (rule nth_equalityI) (auto simp: stack_frames_def raw_of_def rev_nth)

lemmas eval_defs = session_new_def FrameList_new_def StackNode_root_def SampleTranslator_new_def
  SampleTranslator_translate_def translate_prefix.simps translate_walk.simps stack_index_loop.simps
  FrameList_stack_index_def RawSample_empty_def
  RawSample_frame_def RawSample_size_def next_stack_node_def node_at_def StackNode_new_def
  raw_of_def fa_def fb_def fc_def Let_def

lemma raw_of_ok: "length frs \<le> 2048 \<Longrightarrow> sample_ok (raw_of frs)"
  by (simp add: sample_ok_def raw_of_def MAX_LEN_def)

lemma raw_of_len: "RawSample.len (raw_of frs) = int (length frs)"
  by (simp add: raw_of_def)

text \<open>
  C1. After any session (any sequence of samples translated on any streams, mixed with
  any calls of \<^verbatim>\<open>stack_index\<close>), \<^verbatim>\<open>translate\<close> of a well-formed sample of length at least
  1 by any stream returns, and returns the tree and the node index that
  \<^verbatim>\<open>stack_index\<close> returns for that sample on the same tree: the cached prefix never
  changes the result.
\<close>

theorem C1_translate_agrees_with_stack_index:
  assumes "list_all call_ok cs" "sample_ok s" "1 \<le> RawSample.len s"
  shows "\<exists>st outs fl' tr' i.
           session_run session_new cs = Inr (st, outs)
           \<and> SampleTranslator_translate (tree st) (translators st k) s = Inr (fl', tr', i)
           \<and> FrameList_stack_index (tree st) s = Inr (fl', i)"
proof -
  from session_run_ok[OF sess_inv_new assms(1)] obtain st outs where
    run: "session_run session_new cs = Inr (st, outs)" and inv: "sess_inv st"
    by blast
  from inv have wf: "wf_tree (tree st)" and ti: "tr_inv (tree st) (translators st k)"
    by (simp_all add: sess_inv_def)
  from translate_ok[OF wf ti assms(2)] obtain fl1 tr1 q1 where
    t: "SampleTranslator_translate (tree st) (translators st k) s = Inr (fl1, tr1, index (deref fl1 q1))"
    and w1: "walk (tree st) RootNode (stack_frames s) = Inr (fl1, q1)"
    by blast
  from stack_index_ok[OF wf assms(2,3)] obtain fl2 q2 where
    i: "FrameList_stack_index (tree st) s = Inr (fl2, index (deref fl2 q2))"
    and w2: "walk (tree st) RootNode (stack_frames s) = Inr (fl2, q2)"
    by blast
  from w1 w2 have "fl2 = fl1" "q2 = q1" by simp_all
  with run t i show ?thesis by blast
qed

theorem C1_translate_agrees_with_stack_index_witness:
  "list_all call_ok [Translate 0 (raw_of [fa, fb])]
   \<and> sample_ok (raw_of [fa]) \<and> 1 \<le> RawSample.len (raw_of [fa])
   \<and> (\<exists>st fl' tr'. session_run session_new [Translate 0 (raw_of [fa, fb])] = Inr (st, [1])
          \<and> SampleTranslator_translate (tree st) (translators st 0) (raw_of [fa]) = Inr (fl', tr', 0)
          \<and> FrameList_stack_index (tree st) (raw_of [fa]) = Inr (fl', 0))
   \<and> (\<exists>st fl' tr'. session_run session_new [Translate 0 (raw_of [fa, fb])] = Inr (st, [1])
          \<and> SampleTranslator_translate (tree st) (translators st 0) (raw_of [fa, fb, fc]) = Inr (fl', tr', 2)
          \<and> FrameList_stack_index (tree st) (raw_of [fa, fb, fc]) = Inr (fl', 2))
   \<and> (\<exists>st fl' tr'. session_run session_new [Translate 0 (raw_of [fa, fb])] = Inr (st, [1])
          \<and> SampleTranslator_translate (tree st) (translators st 0) (raw_of [fc]) = Inr (fl', tr', 2)
          \<and> FrameList_stack_index (tree st) (raw_of [fc]) = Inr (fl', 2))"
proof -
  let ?cs = "[Translate 0 (raw_of [fa, fb])]"
  have ok: "list_all call_ok ?cs" by (simp add: raw_of_ok)
  have run: "\<exists>st. session_run session_new ?cs = Inr (st, [1])" by (simp add: eval_defs)
  have one: "\<exists>st fl' tr'. session_run session_new ?cs = Inr (st, [1])
          \<and> SampleTranslator_translate (tree st) (translators st 0) (raw_of frs) = Inr (fl', tr', n)
          \<and> FrameList_stack_index (tree st) (raw_of frs) = Inr (fl', n)"
    if len: "length frs \<le> 2048" "1 \<le> length frs"
      and ev: "\<And>st outs. session_run session_new ?cs = Inr (st, outs) \<Longrightarrow>
             \<exists>fl'. FrameList_stack_index (tree st) (raw_of frs) = Inr (fl', n)"
    for frs n
  proof -
    have s: "sample_ok (raw_of frs)" using len(1) by (rule raw_of_ok)
    have l: "1 \<le> RawSample.len (raw_of frs)" using len(2) by (simp add: raw_of_def)
    from C1_translate_agrees_with_stack_index[OF ok s l, of 0] obtain st outs fl' tr' i where
      r: "session_run session_new ?cs = Inr (st, outs)"
      and t: "SampleTranslator_translate (tree st) (translators st 0) (raw_of frs) = Inr (fl', tr', i)"
      and x: "FrameList_stack_index (tree st) (raw_of frs) = Inr (fl', i)"
      by blast
    from run r have o: "outs = [1]" by auto
    from ev[OF r] x have "i = n" by auto
    with r t x o show ?thesis by blast
  qed
  have a: "\<exists>fl'. FrameList_stack_index (tree st) (raw_of [fa]) = Inr (fl', 0)"
    if "session_run session_new ?cs = Inr (st, outs)" for st outs
    using that by (auto simp add: eval_defs)
  have b: "\<exists>fl'. FrameList_stack_index (tree st) (raw_of [fa, fb, fc]) = Inr (fl', 2)"
    if "session_run session_new ?cs = Inr (st, outs)" for st outs
    using that by (auto simp add: eval_defs)
  have c: "\<exists>fl'. FrameList_stack_index (tree st) (raw_of [fc]) = Inr (fl', 2)"
    if "session_run session_new ?cs = Inr (st, outs)" for st outs
    using that by (auto simp add: eval_defs)
  have s: "sample_ok (raw_of [fa])" by (simp add: raw_of_ok)
  have l: "1 \<le> RawSample.len (raw_of [fa])" by (simp add: raw_of_def)
  from ok s l one[of "[fa]" 0, OF _ _ a] one[of "[fa, fb, fc]" 2, OF _ _ b] one[of "[fc]" 2, OF _ _ c]
  show ?thesis by simp
qed

text \<open>
  C2. In any session, every call of \<^verbatim>\<open>stack_index\<close> returns a node whose path from the
  root, read in the final tree, is the frame sequence of its sample. So two calls with
  equal frame sequences return the same index, and two calls whose sequences first
  differ at position \<open>k\<close> return nodes whose paths share exactly their first \<open>k\<close> frames.
\<close>

theorem C2_stack_index_interns_paths:
  assumes "list_all call_ok cs"
  shows "\<exists>st outs.
           session_run session_new cs = Inr (st, outs) \<and> length outs = length cs
           \<and> (\<forall>a b sa sb. a < length cs \<and> b < length cs
                  \<and> cs ! a = StackIndex sa \<and> cs ! b = StackIndex sb \<longrightarrow>
                node_path (tree st) (outs ! a) = stack_frames sa
                \<and> node_path (tree st) (outs ! b) = stack_frames sb
                \<and> (stack_frames sa = stack_frames sb \<longrightarrow> outs ! a = outs ! b)
                \<and> (\<forall>k. first_difference (stack_frames sa) (stack_frames sb) = Some k \<longrightarrow>
                       shared_prefix_length (node_path (tree st) (outs ! a))
                         (node_path (tree st) (outs ! b)) = k))"
proof -
  from session_run_ok[OF sess_inv_new assms] obtain st outs where
    run: "session_run session_new cs = Inr (st, outs)" and inv: "sess_inv st"
    and len: "length outs = length cs"
    and f: "\<forall>a<length cs. 1 \<le> RawSample.len (call_sample (cs ! a)) \<longrightarrow>
                (\<exists>k. find_node (tree st) RootNode (stack_frames (call_sample (cs ! a))) = Some (ListNode k)
                     \<and> outs ! a = int k)"
    by blast
  from inv have wf: "wf_tree (tree st)" by (simp add: sess_inv_def)
  have one: "\<exists>k. find_node (tree st) RootNode (stack_frames sa) = Some (ListNode k) \<and> outs ! a = int k
                \<and> node_path (tree st) (outs ! a) = stack_frames sa"
    if "a < length cs" "cs ! a = StackIndex sa" for a sa
  proof -
    from assms that have "call_ok (StackIndex sa)" by (metis list_all_length)
    then have "1 \<le> RawSample.len (call_sample (cs ! a))" using that by simp
    with f that obtain k where
      k: "find_node (tree st) RootNode (stack_frames sa) = Some (ListNode k)" "outs ! a = int k"
      by auto
    have "ptr_ok (tree st) (ListNode k)" using find_node_ptr_ok[OF wf _ k(1)] by simp
    then have "index (deref (tree st) (ListNode k)) = int k" using wf_index[OF wf, of k] by simp
    with node_path_found[OF wf k(1)] k show ?thesis by simp
  qed
  have two: "node_path (tree st) (outs ! a) = stack_frames sa
                \<and> node_path (tree st) (outs ! b) = stack_frames sb
                \<and> (stack_frames sa = stack_frames sb \<longrightarrow> outs ! a = outs ! b)
                \<and> (\<forall>k. first_difference (stack_frames sa) (stack_frames sb) = Some k \<longrightarrow>
                       shared_prefix_length (node_path (tree st) (outs ! a))
                         (node_path (tree st) (outs ! b)) = k)"
    if "a < length cs" "b < length cs" "cs ! a = StackIndex sa" "cs ! b = StackIndex sb" for a b sa sb
  proof -
    from one[OF that(1,3)] obtain ka where
      a: "find_node (tree st) RootNode (stack_frames sa) = Some (ListNode ka)" "outs ! a = int ka"
         "node_path (tree st) (outs ! a) = stack_frames sa"
      by blast
    from one[OF that(2,4)] obtain kb where
      b: "find_node (tree st) RootNode (stack_frames sb) = Some (ListNode kb)" "outs ! b = int kb"
         "node_path (tree st) (outs ! b) = stack_frames sb"
      by blast
    have same: "stack_frames sa = stack_frames sb \<longrightarrow> outs ! a = outs ! b"
      using a(1,2) b(1,2) by auto
    show ?thesis using a(3) b(3) same by (simp add: first_difference_shared)
  qed
  from run len two show ?thesis by blast
qed

theorem C2_stack_index_interns_paths_witness:
  "list_all call_ok [StackIndex (raw_of [fa, fb]), StackIndex (raw_of [fa, fc]), StackIndex (raw_of [fa, fb])]
   \<and> first_difference [fa, fb] [fa, fc] = Some 1
   \<and> (\<exists>st. session_run session_new
              [StackIndex (raw_of [fa, fb]), StackIndex (raw_of [fa, fc]), StackIndex (raw_of [fa, fb])]
            = Inr (st, [1, 2, 1])
          \<and> node_path (tree st) 1 = [fa, fb] \<and> node_path (tree st) 2 = [fa, fc]
          \<and> shared_prefix_length (node_path (tree st) 1) (node_path (tree st) 2) = 1)"
proof -
  let ?cs = "[StackIndex (raw_of [fa, fb]), StackIndex (raw_of [fa, fc]), StackIndex (raw_of [fa, fb])]"
  have ok: "list_all call_ok ?cs" by (simp add: raw_of_ok raw_of_len)
  have fd: "first_difference [fa, fb] [fa, fc] = Some 1" by (simp add: fa_def fb_def fc_def)
  have run: "\<exists>st. session_run session_new ?cs = Inr (st, [1, 2, 1])" by (simp add: eval_defs)
  from C2_stack_index_interns_paths[OF ok] obtain st outs where
    r: "session_run session_new ?cs = Inr (st, outs)"
    and p: "\<forall>a b sa sb. a < length ?cs \<and> b < length ?cs
                  \<and> ?cs ! a = StackIndex sa \<and> ?cs ! b = StackIndex sb \<longrightarrow>
                node_path (tree st) (outs ! a) = stack_frames sa
                \<and> node_path (tree st) (outs ! b) = stack_frames sb
                \<and> (stack_frames sa = stack_frames sb \<longrightarrow> outs ! a = outs ! b)
                \<and> (\<forall>k. first_difference (stack_frames sa) (stack_frames sb) = Some k \<longrightarrow>
                       shared_prefix_length (node_path (tree st) (outs ! a))
                         (node_path (tree st) (outs ! b)) = k)"
    by blast
  from run r have o: "outs = [1, 2, 1]" by auto
  have sf: "stack_frames (raw_of [fa, fb]) = [fa, fb]" "stack_frames (raw_of [fa, fc]) = [fa, fc]"
    by (rule stack_frames_raw_of)+
  have pre: "0 < length ?cs \<and> 1 < length ?cs \<and> ?cs ! 0 = StackIndex (raw_of [fa, fb])
      \<and> ?cs ! 1 = StackIndex (raw_of [fa, fc])" by simp
  note inst = p[rule_format, of 0 1 "raw_of [fa, fb]" "raw_of [fa, fc]", OF pre, unfolded sf]
  from inst fd
  have "node_path (tree st) (outs ! 0) = [fa, fb]" "node_path (tree st) (outs ! 1) = [fa, fc]"
    "shared_prefix_length (node_path (tree st) (outs ! 0)) (node_path (tree st) (outs ! 1)) = 1"
    by blast+
  with o r ok fd show ?thesis by simp
qed

section \<open>Notifications and sampler ticks on one thread table\<close>

lemma sample_ok_RawSample_sample: "host_ok h \<Longrightarrow> sample_ok (RawSample_sample h s)"
  by (simp add: RawSample_sample_def RawSample_clear_def host_ok_def sample_ok_def Let_def MAX_LEN_def)

lemma Thread_set_state_stopped: "state t = STOPPED \<Longrightarrow> Thread_set_state c ns t = Inr t"
  by (simp add: Thread_set_state_def)

lemma Thread_set_state_dup_suspended: "state t = SUSPENDED \<Longrightarrow> Thread_set_state c SUSPENDED t = Inr t"
  by (simp add: Thread_set_state_def)

lemma Thread_set_state_keeps:
  assumes "Thread_set_state c ns t = Inr t'"
  shows "translator t' = translator t" "ruby_thread t' = ruby_thread t" "samples t' = samples t"
    "stack_on_suspend_idx t' = stack_on_suspend_idx t"
  using assms
  by (auto simp: Thread_set_state_def Let_def split: if_splits State.splits)

lemma Thread_set_state_error:
  "Thread_set_state c ns t = Inl e \<Longrightarrow> e = AssertionFailed"
  by (auto simp: Thread_set_state_def Let_def split: if_splits State.splits)

lemma thread_inv_grows: "wf_tree fl \<Longrightarrow> grows fl fl' \<Longrightarrow> thread_inv fl t \<Longrightarrow> thread_inv fl' t"
  by (auto simp: thread_inv_def intro: tr_inv_grows)

lemma Thread_set_state_running_pthread:
  assumes "Thread_set_state c ns t = Inr t'" "state t' = RUNNING" "pthread_self c \<noteq> 0"
    "state t = RUNNING \<longrightarrow> pthread_id t \<noteq> 0"
  shows "pthread_id t' \<noteq> 0"
  using assms
  by (auto simp: Thread_set_state_def Let_def split: if_splits State.splits)

lemma set_state_found_other:
  "ns \<noteq> SUSPENDED \<Longrightarrow>
   set_state_found c ns fl t =
     (case Thread_set_state c ns t of
        Inl e \<Rightarrow> Inl e
      | Inr t2 \<Rightarrow> Inr (fl, if state t2 = RUNNING
                          then t2\<lparr>pthread_id := pthread_self c, native_tid := get_native_thread_id c\<rparr>
                          else t2\<lparr>pthread_id := 0, native_tid := 0\<rparr>))"
  by (simp add: set_state_found_def)

lemma set_state_found_suspended:
  assumes wf: "wf_tree fl" and inv: "tr_inv fl (translator t)" and c: "host_ok (host c)"
  shows "\<exists>fl' tr' q.
           SampleTranslator_translate fl (translator t) (RawSample_sample (host c) RawSample_new)
             = Inr (fl', tr', index (deref fl' q))
           \<and> wf_tree fl' \<and> grows fl fl' \<and> tr_inv fl' tr'
           \<and> find_node fl' RootNode (stack_frames (RawSample_sample (host c) RawSample_new)) = Some q
           \<and> set_state_found c SUSPENDED fl t =
               (case Thread_set_state c SUSPENDED (t\<lparr>translator := tr', stack_on_suspend_idx := index (deref fl' q)\<rparr>) of
                  Inl e \<Rightarrow> Inl e
                | Inr t2 \<Rightarrow> Inr (fl', if state t2 = RUNNING
                          then t2\<lparr>pthread_id := pthread_self c, native_tid := get_native_thread_id c\<rparr>
                          else t2\<lparr>pthread_id := 0, native_tid := 0\<rparr>))"
proof -
  from translate_ok[OF wf inv sample_ok_RawSample_sample[OF c]] obtain fl' tr' q where
    t: "SampleTranslator_translate fl (translator t) (RawSample_sample (host c) RawSample_new)
             = Inr (fl', tr', index (deref fl' q))"
    and r: "wf_tree fl'" "grows fl fl'" "tr_inv fl' tr'"
       "find_node fl' RootNode (stack_frames (RawSample_sample (host c) RawSample_new)) = Some q"
    by blast
  from t r show ?thesis by (auto simp: set_state_found_def)
qed

lemma set_state_found_inv:
  assumes wf: "wf_tree fl" and inv: "thread_inv fl t" and c: "caller_ok c"
  shows "case set_state_found c ns fl t of
           Inl e \<Rightarrow> e = AssertionFailed
         | Inr (fl', t') \<Rightarrow> wf_tree fl' \<and> grows fl fl' \<and> thread_inv fl' t'
                            \<and> ruby_thread t' = ruby_thread t"
proof (cases "ns = SUSPENDED")
  case False
  show ?thesis
  proof (cases "Thread_set_state c ns t")
    case (Inl e)
    then show ?thesis using False Thread_set_state_error[OF Inl] by (simp add: set_state_found_other)
  next
    case (Inr t2)
    from Thread_set_state_keeps[OF Inr] inv c wf show ?thesis
      using False Inr by (auto simp: set_state_found_other grows_refl thread_inv_def caller_ok_def)
  qed
next
  case True
  from inv c have ti: "tr_inv fl (translator t)" and h: "host_ok (host c)"
    by (simp_all add: thread_inv_def caller_ok_def)
  from set_state_found_suspended[OF wf ti h] obtain fl' tr' q where
    r: "wf_tree fl'" "grows fl fl'" "tr_inv fl' tr'"
    and e: "set_state_found c SUSPENDED fl t =
               (case Thread_set_state c SUSPENDED (t\<lparr>translator := tr', stack_on_suspend_idx := index (deref fl' q)\<rparr>) of
                  Inl e \<Rightarrow> Inl e
                | Inr t2 \<Rightarrow> Inr (fl', if state t2 = RUNNING
                          then t2\<lparr>pthread_id := pthread_self c, native_tid := get_native_thread_id c\<rparr>
                          else t2\<lparr>pthread_id := 0, native_tid := 0\<rparr>))"
    by blast
  let ?t1 = "t\<lparr>translator := tr', stack_on_suspend_idx := index (deref fl' q)\<rparr>"
  show ?thesis
  proof (cases "Thread_set_state c SUSPENDED ?t1")
    case (Inl e')
    then show ?thesis using True e Thread_set_state_error[OF Inl] by simp
  next
    case (Inr t2)
    from Thread_set_state_keeps[OF Inr] r c show ?thesis
      using True e Inr by (auto simp: thread_inv_def caller_ok_def)
  qed
qed

lemma Thread_new_inv: "caller_ok c \<Longrightarrow> thread_inv fl (Thread_new c ns (pthread_self c) th)"
  by (auto simp: thread_inv_def Thread_new_def Let_def tr_inv_new caller_ok_def)

lemma Thread_new_ruby_thread: "ruby_thread (Thread_new c ns pid th) = th"
  by (simp add: Thread_new_def Let_def)

lemma set_state_loop_inv:
  assumes "wf_tree fl" "\<forall>t\<in>set ts. thread_inv fl t" "distinct (map ruby_thread ts)" "caller_ok c"
  shows "case set_state_loop c ns th fl ts of
           Inl e \<Rightarrow> e = AssertionFailed
         | Inr (fl', ts') \<Rightarrow> wf_tree fl' \<and> grows fl fl' \<and> (\<forall>t\<in>set ts'. thread_inv fl' t)
               \<and> distinct (map ruby_thread ts')
               \<and> set (map ruby_thread ts') = insert th (set (map ruby_thread ts))"
  using assms
proof (induction ts)
  case Nil
  then show ?case by (simp add: grows_refl Thread_new_inv Thread_new_ruby_thread)
next
  case (Cons t ts)
  show ?case
  proof (cases "thread_equal th (ruby_thread t)")
    case True
    from Cons.prems have ti: "thread_inv fl t" by simp
    note f = set_state_found_inv[OF Cons.prems(1) ti Cons.prems(4), of ns]
    show ?thesis
    proof (cases "set_state_found c ns fl t")
      case (Inl e)
      with f True show ?thesis by simp
    next
      case (Inr r)
      obtain fl' t' where r: "r = (fl', t')" by (cases r)
      from f Inr r have g: "wf_tree fl'" "grows fl fl'" "thread_inv fl' t'" "ruby_thread t' = ruby_thread t"
        by simp_all
      have "\<forall>x\<in>set ts. thread_inv fl' x"
        using Cons.prems(1,2) g(2) by (auto intro: thread_inv_grows)
      with g Cons.prems(3) True Inr r show ?thesis by (auto simp: thread_equal_def)
    qed
  next
    case False
    from Cons.prems have p: "\<forall>t\<in>set ts. thread_inv fl t" "distinct (map ruby_thread ts)" by simp_all
    note ih = Cons.IH[OF Cons.prems(1) p Cons.prems(4)]
    show ?thesis
    proof (cases "set_state_loop c ns th fl ts")
      case (Inl e)
      with ih False show ?thesis by simp
    next
      case (Inr r)
      obtain fl' ts' where r: "r = (fl', ts')" by (cases r)
      from ih Inr r have g: "wf_tree fl'" "grows fl fl'" "\<forall>t\<in>set ts'. thread_inv fl' t"
        "distinct (map ruby_thread ts')" "set (map ruby_thread ts') = insert th (set (map ruby_thread ts))"
        by simp_all
      have "thread_inv fl' t" using Cons.prems(1,2) g(2) by (auto intro: thread_inv_grows)
      moreover have "ruby_thread t \<notin> set (map ruby_thread ts')"
        using g(5) False Cons.prems(3) by (auto simp: thread_equal_def)
      ultimately show ?thesis using g False Inr r by auto
    qed
  qed
qed

lemma set_state_loop_at:
  assumes "distinct (map ruby_thread ts)" "k < length ts"
  shows "set_state_loop c ns (ruby_thread (ts ! k)) fl ts =
           (case set_state_found c ns fl (ts ! k) of
              Inl e \<Rightarrow> Inl e
            | Inr (fl', t') \<Rightarrow> Inr (fl', ts[k := t']))"
  using assms
proof (induction ts arbitrary: k)
  case Nil
  then show ?case by simp
next
  case (Cons t ts)
  show ?case
  proof (cases k)
    case 0
    then show ?thesis by (auto simp: thread_equal_def split: sum.splits)
  next
    case (Suc j)
    with Cons.prems have j: "j < length ts" and d: "distinct (map ruby_thread ts)"
      and nin: "ruby_thread t \<notin> ruby_thread ` set ts"
      by auto
    from j have "ruby_thread (ts ! j) \<in> ruby_thread ` set ts" by simp
    with nin have ne: "ruby_thread (ts ! j) \<noteq> ruby_thread t" by auto
    from Cons.IH[OF d j] ne Suc show ?thesis
      by (auto simp: thread_equal_def split: sum.splits)
  qed
qed

lemma tick_outcome_mono:
  "tick_outcome P hs start t t' \<Longrightarrow> (\<And>i frs. P i frs \<Longrightarrow> Q i frs) \<Longrightarrow> tick_outcome Q hs start t t'"
  unfolding tick_outcome_def by (auto split: if_splits)

lemma found_at_grows: "wf_tree fl \<Longrightarrow> grows fl fl' \<Longrightarrow> found_at fl i frs \<Longrightarrow> found_at fl' i frs"
  unfolding found_at_def by (metis find_node_grows ptr_ok.simps(1))

lemma found_at_path: "wf_tree fl \<Longrightarrow> found_at fl i frs \<Longrightarrow> node_path fl i = frs"
proof -
  assume wf: "wf_tree fl" and f: "found_at fl i frs"
  then obtain k where k: "find_node fl RootNode frs = Some (ListNode k)" "i = int k"
    by (auto simp: found_at_def)
  have "ptr_ok fl (ListNode k)" using find_node_ptr_ok[OF wf _ k(1)] by simp
  then have "index (deref fl (ListNode k)) = int k" using wf_index[OF wf, of k] by simp
  with node_path_found[OF wf k(1)] k(2) show ?thesis by simp
qed

lemma capture_same:
  "gc (RawSample_sample h s) = gc (RawSample_sample h RawSample_new)"
  "RawSample.len (RawSample_sample h s) = RawSample.len (RawSample_sample h RawSample_new)"
  "stack_frames (RawSample_sample h s) = stack_frames (RawSample_sample h RawSample_new)"
  by (auto simp: RawSample_sample_def RawSample_clear_def Let_def stack_frames_def)

lemma capture_empty:
  "\<not> ruby_native_thread_p h \<or> rb_during_gc h \<Longrightarrow> RawSample.len (RawSample_sample h s) = 0"
  by (auto simp: RawSample_sample_def RawSample_clear_def Let_def)

lemma capture_gc: "gc (RawSample_sample h s) \<longleftrightarrow> ruby_native_thread_p h \<and> rb_during_gc h"
  by (auto simp: RawSample_sample_def RawSample_clear_def Let_def)

lemma sample_thread_ok:
  assumes wf: "wf_tree fl" and inv: "thread_inv fl t" and hs: "\<forall>pid. host_ok (hs pid)"
  shows "\<exists>fl' smp' t'. sample_thread hs start fl smp t = Inr (fl', smp', t')
           \<and> wf_tree fl' \<and> grows fl fl' \<and> thread_inv fl' t' \<and> ruby_thread t' = ruby_thread t
           \<and> tick_outcome (found_at fl') hs start t t'"
proof (cases "state t = RUNNING")
  case True
  let ?h = "hs (pthread_id t)"
  let ?cap = "RawSample_sample ?h smp"
  from inv True have pid: "pthread_id t \<noteq> 0" and ti: "tr_inv fl (translator t)"
    by (simp_all add: thread_inv_def)
  have rs: "GlobalSignalHandler_record_sample hs smp (pthread_id t) = Inr ?cap"
    using pid by (simp add: GlobalSignalHandler_record_sample_def)
  show ?thesis
  proof (cases "gc ?cap \<or> RawSample_empty ?cap")
    case skip: True
    have "sample_thread hs start fl smp t = Inr (fl, ?cap, t)"
      using True rs skip
      by (auto simp: sample_thread_def TimeCollector_record_sample_def)
    moreover have "tick_outcome (found_at fl) hs start t t"
      using True skip capture_same(1,2)[of ?h smp]
      by (auto simp: tick_outcome_def RawSample_empty_def)
    ultimately show ?thesis using wf inv by (simp add: grows_refl)
  next
    case rec: False
    have ok: "sample_ok ?cap" using hs by (simp add: sample_ok_RawSample_sample)
    from translate_ok[OF wf ti ok] obtain fl' tr' q where
      tr: "SampleTranslator_translate fl (translator t) ?cap = Inr (fl', tr', index (deref fl' q))"
      and r: "wf_tree fl'" "grows fl fl'" "tr_inv fl' tr'"
        "find_node fl' RootNode (stack_frames ?cap) = Some q"
      by blast
    have ne: "stack_frames ?cap \<noteq> []"
      using rec ok by (auto simp: RawSample_empty_def sample_ok_def intro!: stack_frames_nonempty)
    from found_index[OF r(1,4) ne] r(4) have fa: "found_at fl' (index (deref fl' q)) (stack_frames ?cap)"
      by (auto simp: found_at_def)
    let ?t' = "t\<lparr>translator := tr',
                  samples := SampleList_record_sample (index (deref fl' q)) start (native_tid t)
                               CATEGORY_NORMAL (samples t)\<rparr>"
    have st: "sample_thread hs start fl smp t = Inr (fl', ?cap, ?t')"
      using True rs rec tr by (simp add: sample_thread_def TimeCollector_record_sample_def)
    have inv': "thread_inv fl' ?t'" using inv r(3) by (simp add: thread_inv_def)
    have out: "tick_outcome (found_at fl') hs start t ?t'"
      unfolding tick_outcome_def using True rec fa capture_same[of ?h smp]
      by (auto simp: RawSample_empty_def)
    from st r inv' out show ?thesis by simp
  qed
next
  case False
  show ?thesis
  proof (cases "state t = SUSPENDED")
    case True
    let ?t' = "t\<lparr>samples := SampleList_record_sample (stack_on_suspend_idx t) start (native_tid t)
                             CATEGORY_IDLE (samples t)\<rparr>"
    have "sample_thread hs start fl smp t = Inr (fl, smp, ?t')"
      using True by (simp add: sample_thread_def)
    moreover have "thread_inv fl ?t'" using inv by (simp add: thread_inv_def)
    moreover have "tick_outcome (found_at fl) hs start t ?t'"
      using True by (simp add: tick_outcome_def)
    ultimately show ?thesis using wf by (simp add: grows_refl)
  next
    case other: False
    have "sample_thread hs start fl smp t = Inr (fl, smp, t)"
      using False other by (simp add: sample_thread_def)
    moreover have "tick_outcome (found_at fl) hs start t t"
      using False other by (simp add: tick_outcome_def)
    ultimately show ?thesis using wf inv by (simp add: grows_refl)
  qed
qed

lemma sample_threads_ok:
  assumes "wf_tree fl" "\<forall>t\<in>set ts. thread_inv fl t" "\<forall>pid. host_ok (hs pid)"
  shows "\<exists>fl' smp' ts'. sample_threads hs start fl smp ts = Inr (fl', smp', ts')
           \<and> wf_tree fl' \<and> grows fl fl' \<and> (\<forall>t\<in>set ts'. thread_inv fl' t)
           \<and> length ts' = length ts \<and> map ruby_thread ts' = map ruby_thread ts
           \<and> (\<forall>k<length ts. tick_outcome (found_at fl') hs start (ts ! k) (ts' ! k))"
  using assms
proof (induction ts arbitrary: fl smp)
  case Nil
  then show ?case by (simp add: grows_refl)
next
  case (Cons t ts)
  from Cons.prems have ti: "thread_inv fl t" by simp
  from sample_thread_ok[OF Cons.prems(1) ti Cons.prems(3), of start smp] obtain fl1 smp1 t1 where
    s1: "sample_thread hs start fl smp t = Inr (fl1, smp1, t1)" and wf1: "wf_tree fl1"
    and g1: "grows fl fl1" and i1: "thread_inv fl1 t1" and r1: "ruby_thread t1 = ruby_thread t"
    and o1: "tick_outcome (found_at fl1) hs start t t1"
    by blast
  have rest: "\<forall>x\<in>set ts. thread_inv fl1 x"
    using Cons.prems(1,2) g1 by (auto intro: thread_inv_grows)
  from Cons.IH[OF wf1 rest Cons.prems(3), of smp1] obtain fl' smp' ts' where
    s2: "sample_threads hs start fl1 smp1 ts = Inr (fl', smp', ts')" and wf': "wf_tree fl'"
    and g': "grows fl1 fl'" and i': "\<forall>t\<in>set ts'. thread_inv fl' t"
    and l: "length ts' = length ts" and rt: "map ruby_thread ts' = map ruby_thread ts"
    and o': "\<forall>k<length ts. tick_outcome (found_at fl') hs start (ts ! k) (ts' ! k)"
    by blast
  have run: "sample_threads hs start fl smp (t # ts) = Inr (fl', smp', t1 # ts')"
    using s1 s2 by simp
  have o1': "tick_outcome (found_at fl') hs start t t1"
    using o1 by (rule tick_outcome_mono) (rule found_at_grows[OF wf1 g'])
  have all: "\<forall>k<length (t # ts). tick_outcome (found_at fl') hs start ((t # ts) ! k) ((t1 # ts') ! k)"
  proof (intro allI impI)
    fix k assume "k < length (t # ts)"
    then show "tick_outcome (found_at fl') hs start ((t # ts) ! k) ((t1 # ts') ! k)"
      using o1' o' by (cases k) simp_all
  qed
  have "thread_inv fl' t1" using wf1 g' i1 by (rule thread_inv_grows)
  with run wf' grows_trans[OF g1 g'] i' l rt r1 all show ?case by simp
qed

lemma table_inv_new: "table_inv ThreadTable_new"
  by (simp add: table_inv_def ThreadTable_new_def wf_tree_new)

lemma profiler_step_inv:
  assumes "table_inv tt" "event_ok e"
  shows "case profiler_step (tt, smp) e of
           Inl err \<Rightarrow> err = AssertionFailed
         | Inr (tt', smp') \<Rightarrow> table_inv tt'"
proof (cases e)
  case (Notify c ns th)
  from assms have a: "wf_tree (ThreadTable.frame_list tt)"
    "\<forall>t\<in>set (ThreadTable.list tt). thread_inv (ThreadTable.frame_list tt) t"
    "distinct (map ruby_thread (ThreadTable.list tt))" "caller_ok c"
    using Notify by (simp_all add: table_inv_def)
  from set_state_loop_inv[OF a, where ns = ns and th = th] show ?thesis
    using Notify by (auto simp: ThreadTable_set_state_def table_inv_def split: sum.splits)
next
  case (SamplerTick tick)
  from assms have a: "wf_tree (ThreadTable.frame_list tt)"
    "\<forall>t\<in>set (ThreadTable.list tt). thread_inv (ThreadTable.frame_list tt) t"
    "\<forall>pid. host_ok (hosts tick pid)" and d: "distinct (map ruby_thread (ThreadTable.list tt))"
    using SamplerTick by (simp_all add: table_inv_def)
  from sample_threads_ok[OF a, of "sample_start tick" smp] d show ?thesis
    using SamplerTick by (auto simp: table_inv_def)
qed

lemma profiler_run_inv:
  assumes "table_inv tt" "list_all event_ok es" "profiler_run (tt, smp) es = Inr (tt', smp')"
  shows "table_inv tt'"
  using assms
proof (induction es arbitrary: tt smp)
  case Nil
  then show ?case by simp
next
  case (Cons e es)
  from Cons.prems(2) have ok: "event_ok e" "list_all event_ok es" by simp_all
  from Cons.prems(3) obtain tt1 smp1 where s: "profiler_step (tt, smp) e = Inr (tt1, smp1)"
    and r: "profiler_run (tt1, smp1) es = Inr (tt', smp')"
    by (auto split: sum.splits)
  from profiler_step_inv[OF Cons.prems(1) ok(1), of smp] s have "table_inv tt1" by simp
  from Cons.IH[OF this ok(2) r] show ?case .
qed

lemma translate_empty:
  assumes "RawSample.len s = 0"
  shows "SampleTranslator_translate fl tr s
           = Inr (fl, tr\<lparr>SampleTranslator.len := 0, last_stack_index := index (root_stack_node fl)\<rparr>,
                  index (root_stack_node fl))"
proof -
  have p: "translate_prefix tr s 0 = Inr 0"
    using assms by (subst translate_prefix.simps) (simp add: RawSample_size_def)
  have w: "translate_walk s 0 fl tr RootNode = Inr (fl, tr, RootNode, 0)"
    using assms by (subst translate_walk.simps) (simp add: RawSample_size_def)
  show ?thesis by (simp add: SampleTranslator_translate_def p w Let_def)
qed

lemma wf_root_index: "wf_tree fl \<Longrightarrow> index (root_stack_node fl) = - 1"
  by (simp add: wf_tree_def)

lemma Thread_set_state_to_suspended:
  assumes "state t = RUNNING \<or> state t = STARTED \<or> state t = SUSPENDED"
  shows "\<exists>t'. Thread_set_state c SUSPENDED t = Inr t' \<and> state t' = SUSPENDED"
  using assms
  by (cases "TimeStamp_zero (Thread.started_at t)")
     (auto simp: Thread_set_state_def Let_def)

lemma last_recorded:
  "last (stacks (SampleList_record_sample si time tid cat sl)) = si"
  "last (categories (SampleList_record_sample si time tid cat sl)) = cat"
  by (auto simp: SampleList_record_sample_def)

lemma sample_thread_suspended:
  "state t = SUSPENDED \<Longrightarrow>
   sample_thread hs start fl smp t =
     Inr (fl, smp, t\<lparr>samples := SampleList_record_sample (stack_on_suspend_idx t) start (native_tid t)
                                   CATEGORY_IDLE (samples t)\<rparr>)"
  by (simp add: sample_thread_def)

lemma ThreadTable_set_state_at:
  assumes "table_inv tt" "k < length (ThreadTable.list tt)"
  shows "ThreadTable_set_state c ns (ruby_thread (ThreadTable.list tt ! k)) tt =
           (case set_state_found c ns (ThreadTable.frame_list tt) (ThreadTable.list tt ! k) of
              Inl e \<Rightarrow> Inl e
            | Inr (fl', t') \<Rightarrow>
                Inr (tt\<lparr>ThreadTable.frame_list := fl', ThreadTable.list := (ThreadTable.list tt)[k := t']\<rparr>))"
proof -
  from assms(1) have d: "distinct (map ruby_thread (ThreadTable.list tt))" by (simp add: table_inv_def)
  show ?thesis
    unfolding ThreadTable_set_state_def set_state_loop_at[OF d assms(2)]
    by (auto split: sum.splits)
qed

lemma elapsed_zero_iff:
  assumes "TimeStamp_less_eq a b"
  shows "a \<noteq> b \<longleftrightarrow> \<not> TimeStamp_zero (TimeStamp_minus b a)"
proof (cases a; cases b)
  fix x y assume ab: "a = TimeStamp x" "b = TimeStamp y"
  with assms have "x \<le> y" by (simp add: TimeStamp_less_eq_def)
  then show ?thesis using ab
    by (auto simp: TimeStamp_zero_def TimeStamp_minus_def)
qed

lemmas table_eval_defs = ThreadTable_set_state_def set_state_found_def Thread_set_state_def
  Thread_new_def ThreadTable_new_def MarkerTable_record_def MarkerTable_record_interval_def
  MarkerTable_new_def SampleList_new_def TimeStamp_zero_def thread_equal_def
  RawSample_sample_def RawSample_clear_def RawSample_new_def
  caller0_def caller1_def caller2_def host_fa_def running_table_def stopped_table_def Let_def

lemma callers_ok: "caller_ok caller0" "caller_ok caller1" "caller_ok caller2"
  by (simp_all add: caller_ok_def host_ok_def caller0_def caller1_def caller2_def host_fa_def MAX_LEN_def)

lemma run_running:
  "profiler_run (ThreadTable_new, RawSample_new) [Notify caller0 RUNNING 1] = Inr (running_table, RawSample_new)"
  by (simp add: ThreadTable_set_state_def ThreadTable_new_def running_table_def caller0_def)

lemma run_stopped:
  "profiler_run (ThreadTable_new, RawSample_new) [Notify caller0 RUNNING 1, Notify caller2 STOPPED 1]
     = Inr (stopped_table, RawSample_new)"
  by (simp add: table_eval_defs)

lemma events_ok: "list_all event_ok [Notify caller0 RUNNING 1]"
  "list_all event_ok [Notify caller0 RUNNING 1, Notify caller2 STOPPED 1]"
  "list_all event_ok [Notify caller0 RUNNING 1, Notify caller1 SUSPENDED 1]"
  by (simp_all add: callers_ok)

lemma tick_fa_ok: "\<forall>pid. host_ok (hosts tick_fa pid)"
  by (simp add: tick_fa_def host_fa_def host_ok_def MAX_LEN_def)

lemma capture_fa:
  "gc (RawSample_sample host_fa RawSample_new) = False"
  "RawSample_empty (RawSample_sample host_fa RawSample_new) = False"
  "stack_frames (RawSample_sample host_fa RawSample_new) = [\<lparr>Frame.frame = 10, line = 1\<rparr>]"
  by (simp_all add: RawSample_sample_def RawSample_clear_def RawSample_new_def host_fa_def
        RawSample_empty_def stack_frames_def Let_def)

lemma run_suspended:
  "\<exists>tt. profiler_run (ThreadTable_new, RawSample_new) [Notify caller0 RUNNING 1, Notify caller1 SUSPENDED 1]
          = Inr (tt, RawSample_new)
        \<and> length (ThreadTable.list tt) = 1 \<and> state (ThreadTable.list tt ! 0) = SUSPENDED
        \<and> ruby_thread (ThreadTable.list tt ! 0) = 1
        \<and> stack_on_suspend_idx (ThreadTable.list tt ! 0) = 0
        \<and> MarkerTable.list (markers (ThreadTable.list tt ! 0))
            = [\<lparr>type = MARKER_THREAD_RUNNING, phase = INTERVAL, timestamp = TimeStamp 100,
                finish = TimeStamp 200, stack_index = - 1\<rparr>]"
  by (simp add: table_eval_defs eval_defs)

text \<open>
  C3 (as amended). In a sampler tick on any table a run can reach, the loop returns,
  keeps every thread in place, and for each thread: when it is RUNNING and the capture
  is GC-flagged or empty the thread is unchanged (nothing recorded); when it is RUNNING
  and the capture is neither, the sample is translated and recorded with
  \<^verbatim>\<open>SampleList::record_sample\<close> under category NORMAL, with an index whose path in the
  tree is the captured stack; when it is SUSPENDED a sample with the stack index stored
  at suspend time is recorded under category IDLE, without a capture; in any other
  state the thread is unchanged.
\<close>

theorem C3_tick_per_thread_state:
  assumes "list_all event_ok es"
    and "profiler_run (ThreadTable_new, RawSample_new) es = Inr (tt, smp)"
    and "\<forall>pid. host_ok (hosts tick pid)"
  shows "\<exists>fl' smp' ts'.
           sample_threads (hosts tick) (sample_start tick) (ThreadTable.frame_list tt) smp (ThreadTable.list tt)
             = Inr (fl', smp', ts')
           \<and> length ts' = length (ThreadTable.list tt)
           \<and> (\<forall>k<length (ThreadTable.list tt).
                 tick_outcome (\<lambda>i frs. node_path fl' i = frs) (hosts tick) (sample_start tick)
                   (ThreadTable.list tt ! k) (ts' ! k))"
proof -
  have inv: "table_inv tt" using table_inv_new assms(1,2) by (rule profiler_run_inv)
  then have a: "wf_tree (ThreadTable.frame_list tt)"
    "\<forall>t\<in>set (ThreadTable.list tt). thread_inv (ThreadTable.frame_list tt) t"
    by (simp_all add: table_inv_def)
  from sample_threads_ok[OF a assms(3), of "sample_start tick" smp] obtain fl' smp' ts' where
    r: "sample_threads (hosts tick) (sample_start tick) (ThreadTable.frame_list tt) smp (ThreadTable.list tt)
             = Inr (fl', smp', ts')"
    and wf': "wf_tree fl'" and l: "length ts' = length (ThreadTable.list tt)"
    and o: "\<forall>k<length (ThreadTable.list tt).
              tick_outcome (found_at fl') (hosts tick) (sample_start tick) (ThreadTable.list tt ! k) (ts' ! k)"
    by blast
  have "\<forall>k<length (ThreadTable.list tt).
                 tick_outcome (\<lambda>i frs. node_path fl' i = frs) (hosts tick) (sample_start tick)
                   (ThreadTable.list tt ! k) (ts' ! k)"
  proof (intro allI impI)
    fix k assume "k < length (ThreadTable.list tt)"
    with o have "tick_outcome (found_at fl') (hosts tick) (sample_start tick) (ThreadTable.list tt ! k) (ts' ! k)"
      by blast
    then show "tick_outcome (\<lambda>i frs. node_path fl' i = frs) (hosts tick) (sample_start tick)
                   (ThreadTable.list tt ! k) (ts' ! k)"
      by (rule tick_outcome_mono) (rule found_at_path[OF wf'])
  qed
  with r l show ?thesis by blast
qed

theorem C3_tick_per_thread_state_witness:
  "list_all event_ok [Notify caller0 RUNNING 1]
   \<and> profiler_run (ThreadTable_new, RawSample_new) [Notify caller0 RUNNING 1]
        = Inr (running_table, RawSample_new)
   \<and> (\<forall>pid. host_ok (hosts tick_fa pid))
   \<and> (\<exists>fl' smp' ts' i.
         sample_threads (hosts tick_fa) (sample_start tick_fa) (ThreadTable.frame_list running_table)
           RawSample_new (ThreadTable.list running_table) = Inr (fl', smp', ts')
         \<and> stacks (samples (ts' ! 0)) = [i]
         \<and> categories (samples (ts' ! 0)) = [CATEGORY_NORMAL]
         \<and> weights (samples (ts' ! 0)) = [1]
         \<and> timestamps (samples (ts' ! 0)) = [TimeStamp 150]
         \<and> node_path fl' i = [\<lparr>Frame.frame = 10, line = 1\<rparr>])"
proof -
  from C3_tick_per_thread_state[OF events_ok(1) run_running tick_fa_ok] obtain fl' smp' ts' where
    r: "sample_threads (hosts tick_fa) (sample_start tick_fa) (ThreadTable.frame_list running_table)
           RawSample_new (ThreadTable.list running_table) = Inr (fl', smp', ts')"
    and o: "\<forall>k<length (ThreadTable.list running_table).
                 tick_outcome (\<lambda>i frs. node_path fl' i = frs) (hosts tick_fa) (sample_start tick_fa)
                   (ThreadTable.list running_table ! k) (ts' ! k)"
    by blast
  have "tick_outcome (\<lambda>i frs. node_path fl' i = frs) (hosts tick_fa) (sample_start tick_fa)
           (Thread_new caller0 RUNNING 7 1) (ts' ! 0)"
    using o by (simp add: running_table_def)
  then obtain i tr' where
    t: "ts' ! 0 = (Thread_new caller0 RUNNING 7 1)\<lparr>translator := tr',
           samples := SampleList_record_sample i (TimeStamp 150) 5 CATEGORY_NORMAL SampleList_new\<rparr>"
    and p: "node_path fl' i = [\<lparr>Frame.frame = 10, line = 1\<rparr>]"
    by (auto simp: tick_outcome_def tick_fa_def capture_fa Thread_new_def Let_def caller0_def)
  have "stacks (samples (ts' ! 0)) = [i]" "categories (samples (ts' ! 0)) = [CATEGORY_NORMAL]"
    "weights (samples (ts' ! 0)) = [1]" "timestamps (samples (ts' ! 0)) = [TimeStamp 150]"
    by (simp_all add: t SampleList_record_sample_def SampleList_new_def SampleList_empty_def
          SampleList_size_def)
  with r p events_ok(1) run_running tick_fa_ok show ?thesis by blast
qed

text \<open>
  C3, counterexample to the sentence of the specification: for a RUNNING thread whose
  capture is empty without being GC-flagged (here: a native thread with no frames)
  nothing is translated or recorded, and the thread is as before.
\<close>

theorem C3_tick_counterexample:
  "profiler_run (ThreadTable_new, RawSample_new) [Notify caller0 RUNNING 1]
     = Inr (running_table, RawSample_new)
   \<and> ThreadTable.list running_table = [Thread_new caller0 RUNNING 7 1]
   \<and> state (Thread_new caller0 RUNNING 7 1) = RUNNING
   \<and> gc (RawSample_sample (host caller0) RawSample_new) = False
   \<and> sample_thread (\<lambda>_. host caller0) (TimeStamp 150) FrameList_new RawSample_new
        (Thread_new caller0 RUNNING 7 1)
       = Inr (FrameList_new, RawSample_sample (host caller0) RawSample_new, Thread_new caller0 RUNNING 7 1)
   \<and> stacks (samples (Thread_new caller0 RUNNING 7 1)) = []"
  using run_running
  by (simp add: running_table_def sample_thread_def GlobalSignalHandler_record_sample_def
        TimeCollector_record_sample_def RawSample_empty_def Thread_new_def SampleList_new_def
        RawSample_sample_def RawSample_clear_def RawSample_new_def caller0_def)

text \<open>
  C4 (as amended). For a thread that is STOPPED in any table a run can reach,
  \<^verbatim>\<open>Thread::set_state\<close> returns the thread as it is for every notification, and
  \<^verbatim>\<open>ThreadTable::set_state\<close> for that thread returns normally, leaves every other thread
  alone, and changes at most four fields of it: the pthread id and native thread id
  become 0, and the translator and the stack index at suspend can differ afterwards.
  State, time stamps, markers and samples stay as they are; a notification other than
  SUSPENDED also leaves the translator, the stack index at suspend and the tree as
  they are.
\<close>

theorem C4_stopped_thread_after_notification:
  assumes "list_all event_ok es"
    and "profiler_run (ThreadTable_new, RawSample_new) es = Inr (tt, smp)"
    and "k < length (ThreadTable.list tt)"
    and "state (ThreadTable.list tt ! k) = STOPPED"
    and "caller_ok c"
  shows "Thread_set_state c ns (ThreadTable.list tt ! k) = Inr (ThreadTable.list tt ! k)
       \<and> (\<exists>tt' tr' si.
             ThreadTable_set_state c ns (ruby_thread (ThreadTable.list tt ! k)) tt = Inr tt'
             \<and> ThreadTable.list tt' =
                 (ThreadTable.list tt)[k := (ThreadTable.list tt ! k)
                    \<lparr>translator := tr', stack_on_suspend_idx := si, pthread_id := 0, native_tid := 0\<rparr>]
             \<and> (ns \<noteq> SUSPENDED \<longrightarrow>
                   tr' = translator (ThreadTable.list tt ! k)
                   \<and> si = stack_on_suspend_idx (ThreadTable.list tt ! k)
                   \<and> ThreadTable.frame_list tt' = ThreadTable.frame_list tt))"
proof -
  let ?t = "ThreadTable.list tt ! k"
  let ?fl = "ThreadTable.frame_list tt"
  have inv: "table_inv tt" using table_inv_new assms(1,2) by (rule profiler_run_inv)
  then have wf: "wf_tree ?fl" and ti: "thread_inv ?fl ?t"
    using assms(3) by (simp_all add: table_inv_def)
  from ti assms(5) have tr: "tr_inv ?fl (translator ?t)" and h: "host_ok (host c)"
    by (simp_all add: thread_inv_def caller_ok_def)
  have a: "Thread_set_state c ns ?t = Inr ?t"
    using assms(4) by (rule Thread_set_state_stopped)
  show ?thesis
  proof (cases "ns = SUSPENDED")
    case True
    from set_state_found_suspended[OF wf tr h] obtain fl' tr' q where
      e: "set_state_found c SUSPENDED ?fl ?t =
               (case Thread_set_state c SUSPENDED (?t\<lparr>translator := tr', stack_on_suspend_idx := index (deref fl' q)\<rparr>) of
                  Inl e \<Rightarrow> Inl e
                | Inr t2 \<Rightarrow> Inr (fl', if state t2 = RUNNING
                          then t2\<lparr>pthread_id := pthread_self c, native_tid := get_native_thread_id c\<rparr>
                          else t2\<lparr>pthread_id := 0, native_tid := 0\<rparr>))"
      by blast
    let ?t1 = "?t\<lparr>translator := tr', stack_on_suspend_idx := index (deref fl' q)\<rparr>"
    have "Thread_set_state c SUSPENDED ?t1 = Inr ?t1"
      using assms(4) by (simp add: Thread_set_state_stopped)
    with e assms(4) have f: "set_state_found c SUSPENDED ?fl ?t
        = Inr (fl', ?t1\<lparr>pthread_id := 0, native_tid := 0\<rparr>)"
      by simp
    let ?tt' = "tt\<lparr>ThreadTable.frame_list := fl',
                    ThreadTable.list := (ThreadTable.list tt)[k := ?t1\<lparr>pthread_id := 0, native_tid := 0\<rparr>]\<rparr>"
    have s: "ThreadTable_set_state c ns (ruby_thread ?t) tt = Inr ?tt'"
      using True by (simp add: ThreadTable_set_state_at[OF inv assms(3)] f)
    show ?thesis
      using a s True
      by (intro conjI exI[of _ ?tt'] exI[of _ tr'] exI[of _ "index (deref fl' q)"]) simp_all
  next
    case False
    have f: "set_state_found c ns ?fl ?t = Inr (?fl, ?t\<lparr>pthread_id := 0, native_tid := 0\<rparr>)"
      using False a assms(4) by (simp add: set_state_found_other)
    let ?tt' = "tt\<lparr>ThreadTable.frame_list := ?fl,
                    ThreadTable.list := (ThreadTable.list tt)[k := ?t\<lparr>pthread_id := 0, native_tid := 0\<rparr>]\<rparr>"
    have s: "ThreadTable_set_state c ns (ruby_thread ?t) tt = Inr ?tt'"
      by (simp add: ThreadTable_set_state_at[OF inv assms(3)] f)
    show ?thesis
      using a s
      by (intro conjI exI[of _ ?tt'] exI[of _ "translator ?t"] exI[of _ "stack_on_suspend_idx ?t"]) simp_all
  qed
qed

theorem C4_stopped_thread_after_notification_witness:
  "list_all event_ok [Notify caller0 RUNNING 1, Notify caller2 STOPPED 1]
   \<and> profiler_run (ThreadTable_new, RawSample_new) [Notify caller0 RUNNING 1, Notify caller2 STOPPED 1]
        = Inr (stopped_table, RawSample_new)
   \<and> 0 < length (ThreadTable.list stopped_table)
   \<and> state (ThreadTable.list stopped_table ! 0) = STOPPED
   \<and> caller_ok caller1
   \<and> Thread_set_state caller1 SUSPENDED (ThreadTable.list stopped_table ! 0)
        = Inr (ThreadTable.list stopped_table ! 0)
   \<and> ThreadTable_set_state caller1 READY 1 stopped_table = Inr stopped_table
   \<and> (\<exists>tt' tr' si. ThreadTable_set_state caller1 SUSPENDED 1 stopped_table = Inr tt'
          \<and> ThreadTable.list tt' =
               [(ThreadTable.list stopped_table ! 0)\<lparr>translator := tr', stack_on_suspend_idx := si\<rparr>])"
proof -
  have l: "0 < length (ThreadTable.list stopped_table)" by (simp add: stopped_table_def)
  have s: "state (ThreadTable.list stopped_table ! 0) = STOPPED" by (simp add: stopped_table_def)
  have rt: "ruby_thread (ThreadTable.list stopped_table ! 0) = 1" by (simp add: stopped_table_def)
  note a = C4_stopped_thread_after_notification[OF events_ok(2) run_stopped l s callers_ok(2), of SUSPENDED]
  note b = C4_stopped_thread_after_notification[OF events_ok(2) run_stopped l s callers_ok(2), of READY]
  from b have "ThreadTable_set_state caller1 READY 1 stopped_table = Inr stopped_table"
    unfolding rt by (auto simp: stopped_table_def)
  moreover from a have "\<exists>tt' tr' si. ThreadTable_set_state caller1 SUSPENDED 1 stopped_table = Inr tt'
          \<and> ThreadTable.list tt' =
               [(ThreadTable.list stopped_table ! 0)\<lparr>translator := tr', stack_on_suspend_idx := si\<rparr>]"
    unfolding rt by (auto simp: stopped_table_def)
  ultimately show ?thesis using a events_ok(2) run_stopped l s callers_ok(2) by blast
qed

text \<open>
  C4, counterexample to the sentence of the specification: a thread is created RUNNING
  and then STOPPED; a SUSPENDED notification that captures one frame then leaves it
  STOPPED but changes its \<^verbatim>\<open>stack_on_suspend_idx\<close> from \<open>-1\<close> to \<open>0\<close>.
\<close>

theorem C4_stopped_thread_counterexample:
  "profiler_run (ThreadTable_new, RawSample_new) [Notify caller0 RUNNING 1, Notify caller2 STOPPED 1]
     = Inr (stopped_table, RawSample_new)
   \<and> map state (ThreadTable.list stopped_table) = [STOPPED]
   \<and> map stack_on_suspend_idx (ThreadTable.list stopped_table) = [- 1]
   \<and> map_sum id (map state \<circ> ThreadTable.list) (ThreadTable_set_state caller1 SUSPENDED 1 stopped_table)
       = Inr [STOPPED]
   \<and> map_sum id (map stack_on_suspend_idx \<circ> ThreadTable.list)
         (ThreadTable_set_state caller1 SUSPENDED 1 stopped_table)
       = Inr [0]"
  using run_stopped
  by (simp add: table_eval_defs eval_defs)

text \<open>
  C5. For a thread that is SUSPENDED in any table a run can reach, a further SUSPENDED
  notification adds no marker and changes neither the state nor the time of the last
  state change: \<^verbatim>\<open>Thread::set_state\<close> returns the thread as it is, and
  \<^verbatim>\<open>ThreadTable::set_state\<close> only rewrites the captured stack index, the translator and
  the two thread ids.
\<close>

theorem C5_duplicate_suspended_absorbed:
  assumes "list_all event_ok es"
    and "profiler_run (ThreadTable_new, RawSample_new) es = Inr (tt, smp)"
    and "k < length (ThreadTable.list tt)"
    and "state (ThreadTable.list tt ! k) = SUSPENDED"
    and "caller_ok c"
  shows "Thread_set_state c SUSPENDED (ThreadTable.list tt ! k) = Inr (ThreadTable.list tt ! k)
       \<and> (\<exists>tt' tr' si.
             ThreadTable_set_state c SUSPENDED (ruby_thread (ThreadTable.list tt ! k)) tt = Inr tt'
             \<and> ThreadTable.list tt' =
                 (ThreadTable.list tt)[k := (ThreadTable.list tt ! k)
                    \<lparr>translator := tr', stack_on_suspend_idx := si, pthread_id := 0, native_tid := 0\<rparr>]
             \<and> markers (ThreadTable.list tt' ! k) = markers (ThreadTable.list tt ! k)
             \<and> state (ThreadTable.list tt' ! k) = SUSPENDED
             \<and> state_changed_at (ThreadTable.list tt' ! k) = state_changed_at (ThreadTable.list tt ! k))"
proof -
  let ?t = "ThreadTable.list tt ! k"
  let ?fl = "ThreadTable.frame_list tt"
  have inv: "table_inv tt" using table_inv_new assms(1,2) by (rule profiler_run_inv)
  then have wf: "wf_tree ?fl" and ti: "thread_inv ?fl ?t"
    using assms(3) by (simp_all add: table_inv_def)
  from ti assms(5) have tr: "tr_inv ?fl (translator ?t)" and h: "host_ok (host c)"
    by (simp_all add: thread_inv_def caller_ok_def)
  have a: "Thread_set_state c SUSPENDED ?t = Inr ?t"
    using assms(4) by (rule Thread_set_state_dup_suspended)
  from set_state_found_suspended[OF wf tr h] obtain fl' tr' q where
    e: "set_state_found c SUSPENDED ?fl ?t =
               (case Thread_set_state c SUSPENDED (?t\<lparr>translator := tr', stack_on_suspend_idx := index (deref fl' q)\<rparr>) of
                  Inl e \<Rightarrow> Inl e
                | Inr t2 \<Rightarrow> Inr (fl', if state t2 = RUNNING
                          then t2\<lparr>pthread_id := pthread_self c, native_tid := get_native_thread_id c\<rparr>
                          else t2\<lparr>pthread_id := 0, native_tid := 0\<rparr>))"
    by blast
  let ?t1 = "?t\<lparr>translator := tr', stack_on_suspend_idx := index (deref fl' q)\<rparr>"
  have "Thread_set_state c SUSPENDED ?t1 = Inr ?t1"
    using assms(4) by (simp add: Thread_set_state_dup_suspended)
  with e assms(4) have f: "set_state_found c SUSPENDED ?fl ?t
      = Inr (fl', ?t1\<lparr>pthread_id := 0, native_tid := 0\<rparr>)"
    by simp
  let ?tt' = "tt\<lparr>ThreadTable.frame_list := fl',
                  ThreadTable.list := (ThreadTable.list tt)[k := ?t1\<lparr>pthread_id := 0, native_tid := 0\<rparr>]\<rparr>"
  have s: "ThreadTable_set_state c SUSPENDED (ruby_thread ?t) tt = Inr ?tt'"
    by (simp add: ThreadTable_set_state_at[OF inv assms(3)] f)
  show ?thesis
    using a s assms(3,4)
    by (intro conjI exI[of _ ?tt'] exI[of _ tr'] exI[of _ "index (deref fl' q)"]) simp_all
qed

theorem C5_duplicate_suspended_absorbed_witness:
  "list_all event_ok [Notify caller0 RUNNING 1, Notify caller1 SUSPENDED 1]
   \<and> caller_ok caller2
   \<and> (\<exists>tt tt'. profiler_run (ThreadTable_new, RawSample_new)
                   [Notify caller0 RUNNING 1, Notify caller1 SUSPENDED 1] = Inr (tt, RawSample_new)
          \<and> 0 < length (ThreadTable.list tt)
          \<and> state (ThreadTable.list tt ! 0) = SUSPENDED
          \<and> Thread_set_state caller2 SUSPENDED (ThreadTable.list tt ! 0) = Inr (ThreadTable.list tt ! 0)
          \<and> ThreadTable_set_state caller2 SUSPENDED 1 tt = Inr tt'
          \<and> state (ThreadTable.list tt' ! 0) = SUSPENDED
          \<and> MarkerTable.list (markers (ThreadTable.list tt' ! 0))
              = [\<lparr>type = MARKER_THREAD_RUNNING, phase = INTERVAL, timestamp = TimeStamp 100,
                  finish = TimeStamp 200, stack_index = - 1\<rparr>])"
proof -
  from run_suspended obtain tt where
    r: "profiler_run (ThreadTable_new, RawSample_new) [Notify caller0 RUNNING 1, Notify caller1 SUSPENDED 1]
          = Inr (tt, RawSample_new)"
    and l: "length (ThreadTable.list tt) = 1" and s: "state (ThreadTable.list tt ! 0) = SUSPENDED"
    and rt: "ruby_thread (ThreadTable.list tt ! 0) = 1"
    and m: "MarkerTable.list (markers (ThreadTable.list tt ! 0))
            = [\<lparr>type = MARKER_THREAD_RUNNING, phase = INTERVAL, timestamp = TimeStamp 100,
                finish = TimeStamp 200, stack_index = - 1\<rparr>]"
    by blast
  from l have l0: "0 < length (ThreadTable.list tt)" by simp
  from C5_duplicate_suspended_absorbed[OF events_ok(3) r l0 s callers_ok(3)] rt m
  obtain tt' where "Thread_set_state caller2 SUSPENDED (ThreadTable.list tt ! 0) = Inr (ThreadTable.list tt ! 0)"
    "ThreadTable_set_state caller2 SUSPENDED 1 tt = Inr tt'"
    "state (ThreadTable.list tt' ! 0) = SUSPENDED"
    "MarkerTable.list (markers (ThreadTable.list tt' ! 0))
              = [\<lparr>type = MARKER_THREAD_RUNNING, phase = INTERVAL, timestamp = TimeStamp 100,
                  finish = TimeStamp 200, stack_index = - 1\<rparr>]"
    by auto
  with r l0 s events_ok(3) callers_ok(3) show ?thesis by blast
qed

text \<open>
  C6. A transition to RUNNING (from READY or RUNNING) appends one interval marker
  "stalled" from the time of the last state change to now when the two time stamps
  differ, and no marker when they are equal; with a clock that does not run backwards
  the two differ exactly when the elapsed time is not zero.
\<close>

theorem C6_stalled_marker_iff_elapsed:
  assumes "state t = READY \<or> state t = RUNNING"
  shows "\<exists>t' t''. Thread_set_state c RUNNING t = Inr t'
           \<and> set_state_found c RUNNING fl t = Inr (fl, t'')
           \<and> state t' = RUNNING \<and> state_changed_at t' = now c
           \<and> MarkerTable.list (markers t') = MarkerTable.list (markers t) @
                (if state_changed_at t \<noteq> now c
                 then [\<lparr>type = MARKER_THREAD_STALLED, phase = INTERVAL,
                        timestamp = state_changed_at t, finish = now c, stack_index = - 1\<rparr>]
                 else [])
           \<and> markers t'' = markers t'
           \<and> (TimeStamp_less_eq (state_changed_at t) (now c) \<longrightarrow>
                (state_changed_at t \<noteq> now c
                   \<longleftrightarrow> \<not> TimeStamp_zero (TimeStamp_minus (now c) (state_changed_at t))))"
proof -
  have "\<exists>t'. Thread_set_state c RUNNING t = Inr t' \<and> state t' = RUNNING
          \<and> state_changed_at t' = now c
          \<and> MarkerTable.list (markers t') = MarkerTable.list (markers t) @
                (if state_changed_at t \<noteq> now c
                 then [\<lparr>type = MARKER_THREAD_STALLED, phase = INTERVAL,
                        timestamp = state_changed_at t, finish = now c, stack_index = - 1\<rparr>]
                 else [])"
    using assms
    by (cases "TimeStamp_zero (Thread.started_at t)"; cases "state_changed_at t = now c")
       (auto simp: Thread_set_state_def Let_def MarkerTable_record_interval_def)
  then obtain t' where t': "Thread_set_state c RUNNING t = Inr t'" and st: "state t' = RUNNING"
    and ch: "state_changed_at t' = now c"
    and mk: "MarkerTable.list (markers t') = MarkerTable.list (markers t) @
                (if state_changed_at t \<noteq> now c
                 then [\<lparr>type = MARKER_THREAD_STALLED, phase = INTERVAL,
                        timestamp = state_changed_at t, finish = now c, stack_index = - 1\<rparr>]
                 else [])"
    by blast
  have f: "set_state_found c RUNNING fl t
             = Inr (fl, t'\<lparr>pthread_id := pthread_self c, native_tid := get_native_thread_id c\<rparr>)"
    using t' st by (simp add: set_state_found_def)
  from t' f st ch mk elapsed_zero_iff show ?thesis by auto
qed

theorem C6_stalled_marker_iff_elapsed_witness:
  "state (Thread_new caller0 READY 7 1) = READY
   \<and> (\<exists>t'. Thread_set_state (caller0\<lparr>now := TimeStamp 130\<rparr>) RUNNING (Thread_new caller0 READY 7 1) = Inr t'
          \<and> MarkerTable.list (markers t')
              = [\<lparr>type = MARKER_THREAD_STALLED, phase = INTERVAL, timestamp = TimeStamp 100,
                  finish = TimeStamp 130, stack_index = - 1\<rparr>])
   \<and> (\<exists>t'. Thread_set_state caller0 RUNNING (Thread_new caller0 READY 7 1) = Inr t'
          \<and> MarkerTable.list (markers t') = [])"
proof -
  let ?t = "Thread_new caller0 READY 7 1"
  have s: "state ?t = READY \<or> state ?t = RUNNING" by (simp add: Thread_new_def Let_def)
  have m: "MarkerTable.list (markers ?t) = []" "state_changed_at ?t = TimeStamp 100"
    by (simp_all add: Thread_new_def Let_def MarkerTable_new_def caller0_def)
  from C6_stalled_marker_iff_elapsed[OF s, of "caller0\<lparr>now := TimeStamp 130\<rparr>" FrameList_new]
       C6_stalled_marker_iff_elapsed[OF s, of caller0 FrameList_new] m
  show ?thesis by (auto simp: caller0_def Thread_new_def Let_def)
qed

lemma set_state_found_empty_capture:
  assumes root: "index (root_stack_node fl) = - 1"
    and st: "state t = RUNNING \<or> state t = STARTED \<or> state t = SUSPENDED"
    and len0: "RawSample.len (RawSample_sample (host c) RawSample_new) = 0"
  shows "\<exists>t'. set_state_found c SUSPENDED fl t = Inr (fl, t')
           \<and> state t' = SUSPENDED \<and> stack_on_suspend_idx t' = - 1
           \<and> translator t' = (translator t)\<lparr>SampleTranslator.len := 0, last_stack_index := - 1\<rparr>
           \<and> samples t' = samples t \<and> native_tid t' = 0"
proof -
  let ?t1 = "t\<lparr>translator := (translator t)\<lparr>SampleTranslator.len := 0, last_stack_index := - 1\<rparr>,
                stack_on_suspend_idx := - 1\<rparr>"
  have tre: "SampleTranslator_translate fl (translator t) (RawSample_sample (host c) RawSample_new)
               = Inr (fl, (translator t)\<lparr>SampleTranslator.len := 0, last_stack_index := - 1\<rparr>, - 1)"
    using translate_empty[OF len0, of fl "translator t"] root by simp
  have st1: "state ?t1 = RUNNING \<or> state ?t1 = STARTED \<or> state ?t1 = SUSPENDED"
    using st by simp
  from Thread_set_state_to_suspended[OF st1, of c] obtain t2 where
    t2: "Thread_set_state c SUSPENDED ?t1 = Inr t2" and s2: "state t2 = SUSPENDED"
    by blast
  note k = Thread_set_state_keeps[OF t2]
  have f: "set_state_found c SUSPENDED fl t = Inr (fl, t2\<lparr>pthread_id := 0, native_tid := 0\<rparr>)"
    using tre t2 s2 by (simp add: set_state_found_def)
  show ?thesis
    using f s2 k by (intro exI[of _ "t2\<lparr>pthread_id := 0, native_tid := 0\<rparr>"]) simp
qed

text \<open>
  C10. A capture on a non-native thread or during GC is empty. \<^verbatim>\<open>translate\<close> of an
  empty sample returns \<open>-1\<close>, the index of the root, leaves the tree alone and sets the
  cached length to 0, whatever the translator held. So a SUSPENDED notification with an
  empty capture overwrites the thread's \<^verbatim>\<open>stack_on_suspend_idx\<close> with \<open>-1\<close> and resets
  the cache of its translator, whatever index and cache the thread had (for every
  thread and every tree whose root has index \<open>-1\<close>, and so in every table a run can
  reach), and a later tick records an IDLE sample with stack index \<open>-1\<close> for the
  suspended thread.
\<close>

theorem C10_empty_capture_at_suspend:
  assumes "list_all event_ok es"
    and "profiler_run (ThreadTable_new, RawSample_new) es = Inr (tt, smp)"
    and "k < length (ThreadTable.list tt)"
    and "state (ThreadTable.list tt ! k) = RUNNING \<or> state (ThreadTable.list tt ! k) = STARTED
         \<or> state (ThreadTable.list tt ! k) = SUSPENDED"
    and "caller_ok c"
    and "\<not> ruby_native_thread_p (host c) \<or> rb_during_gc (host c) \<or> profile_count (host c) = 0"
  shows "RawSample.len (RawSample_sample (host c) RawSample_new) = 0
       \<and> (\<forall>tr s. RawSample.len s = 0 \<longrightarrow>
             SampleTranslator_translate (ThreadTable.frame_list tt) tr s
               = Inr (ThreadTable.frame_list tt,
                      tr\<lparr>SampleTranslator.len := 0, last_stack_index := - 1\<rparr>, - 1))
       \<and> (\<forall>fl t. index (root_stack_node fl) = - 1
               \<and> (state t = RUNNING \<or> state t = STARTED \<or> state t = SUSPENDED) \<longrightarrow>
             (\<exists>t'. set_state_found c SUSPENDED fl t = Inr (fl, t')
                 \<and> state t' = SUSPENDED \<and> stack_on_suspend_idx t' = - 1
                 \<and> translator t' = (translator t)\<lparr>SampleTranslator.len := 0, last_stack_index := - 1\<rparr>
                 \<and> samples t' = samples t))
       \<and> (\<exists>tt'. ThreadTable_set_state c SUSPENDED (ruby_thread (ThreadTable.list tt ! k)) tt = Inr tt'
             \<and> ThreadTable.frame_list tt' = ThreadTable.frame_list tt
             \<and> length (ThreadTable.list tt') = length (ThreadTable.list tt)
             \<and> state (ThreadTable.list tt' ! k) = SUSPENDED
             \<and> stack_on_suspend_idx (ThreadTable.list tt' ! k) = - 1
             \<and> translator (ThreadTable.list tt' ! k)
                 = (translator (ThreadTable.list tt ! k))\<lparr>SampleTranslator.len := 0, last_stack_index := - 1\<rparr>
             \<and> samples (ThreadTable.list tt' ! k) = samples (ThreadTable.list tt ! k)
             \<and> (\<forall>hs start fl live. \<exists>t''.
                   sample_thread hs start fl live (ThreadTable.list tt' ! k) = Inr (fl, live, t'')
                   \<and> samples t'' = SampleList_record_sample (- 1) start 0 CATEGORY_IDLE
                                      (samples (ThreadTable.list tt' ! k))
                   \<and> last (stacks (samples t'')) = - 1
                   \<and> last (categories (samples t'')) = CATEGORY_IDLE))"
proof -
  let ?t = "ThreadTable.list tt ! k"
  let ?fl = "ThreadTable.frame_list tt"
  let ?cap = "RawSample_sample (host c) RawSample_new"
  have inv: "table_inv tt" using table_inv_new assms(1,2) by (rule profiler_run_inv)
  then have wf: "wf_tree ?fl" by (simp add: table_inv_def)
  have root: "index (root_stack_node ?fl) = - 1" using wf by (rule wf_root_index)
  have len0: "RawSample.len ?cap = 0"
    using assms(6) by (auto simp: RawSample_sample_def RawSample_clear_def Let_def)
  have tre: "SampleTranslator_translate ?fl tr s
               = Inr (?fl, tr\<lparr>SampleTranslator.len := 0, last_stack_index := - 1\<rparr>, - 1)"
    if "RawSample.len s = 0" for tr s
    using translate_empty[OF that, of ?fl tr] root by simp
  have gen: "\<exists>t'. set_state_found c SUSPENDED fl t = Inr (fl, t')
                 \<and> state t' = SUSPENDED \<and> stack_on_suspend_idx t' = - 1
                 \<and> translator t' = (translator t)\<lparr>SampleTranslator.len := 0, last_stack_index := - 1\<rparr>
                 \<and> samples t' = samples t"
    if "index (root_stack_node fl) = - 1
          \<and> (state t = RUNNING \<or> state t = STARTED \<or> state t = SUSPENDED)" for fl t
    using set_state_found_empty_capture[of fl t c] that len0 by blast
  from set_state_found_empty_capture[OF root assms(4) len0] obtain t' where
    f: "set_state_found c SUSPENDED ?fl ?t = Inr (?fl, t')"
    and s2: "state t' = SUSPENDED" and i2: "stack_on_suspend_idx t' = - 1"
    and tr2: "translator t' = (translator ?t)\<lparr>SampleTranslator.len := 0, last_stack_index := - 1\<rparr>"
    and sm2: "samples t' = samples ?t" and nt2: "native_tid t' = 0"
    by blast
  let ?tt' = "tt\<lparr>ThreadTable.frame_list := ?fl, ThreadTable.list := (ThreadTable.list tt)[k := t']\<rparr>"
  have s: "ThreadTable_set_state c SUSPENDED (ruby_thread ?t) tt = Inr ?tt'"
    by (simp add: ThreadTable_set_state_at[OF inv assms(3)] f)
  have nth: "ThreadTable.list ?tt' ! k = t'" using assms(3) by simp
  have tick: "\<exists>t''. sample_thread hs start fl live t' = Inr (fl, live, t'')
                   \<and> samples t'' = SampleList_record_sample (- 1) start 0 CATEGORY_IDLE (samples t')
                   \<and> last (stacks (samples t'')) = - 1
                   \<and> last (categories (samples t'')) = CATEGORY_IDLE" for hs start fl live
    using s2 i2 nt2 by (simp add: sample_thread_suspended last_recorded)
  have "ThreadTable_set_state c SUSPENDED (ruby_thread ?t) tt = Inr ?tt'
             \<and> ThreadTable.frame_list ?tt' = ?fl
             \<and> length (ThreadTable.list ?tt') = length (ThreadTable.list tt)
             \<and> state (ThreadTable.list ?tt' ! k) = SUSPENDED
             \<and> stack_on_suspend_idx (ThreadTable.list ?tt' ! k) = - 1
             \<and> translator (ThreadTable.list ?tt' ! k)
                 = (translator ?t)\<lparr>SampleTranslator.len := 0, last_stack_index := - 1\<rparr>
             \<and> samples (ThreadTable.list ?tt' ! k) = samples ?t
             \<and> (\<forall>hs start fl live. \<exists>t''.
                   sample_thread hs start fl live (ThreadTable.list ?tt' ! k) = Inr (fl, live, t'')
                   \<and> samples t'' = SampleList_record_sample (- 1) start 0 CATEGORY_IDLE
                                      (samples (ThreadTable.list ?tt' ! k))
                   \<and> last (stacks (samples t'')) = - 1
                   \<and> last (categories (samples t'')) = CATEGORY_IDLE)"
    unfolding nth using s s2 i2 tr2 sm2 tick by simp
  then have last_part: "\<exists>tt'. ThreadTable_set_state c SUSPENDED (ruby_thread ?t) tt = Inr tt'
             \<and> ThreadTable.frame_list tt' = ?fl
             \<and> length (ThreadTable.list tt') = length (ThreadTable.list tt)
             \<and> state (ThreadTable.list tt' ! k) = SUSPENDED
             \<and> stack_on_suspend_idx (ThreadTable.list tt' ! k) = - 1
             \<and> translator (ThreadTable.list tt' ! k)
                 = (translator ?t)\<lparr>SampleTranslator.len := 0, last_stack_index := - 1\<rparr>
             \<and> samples (ThreadTable.list tt' ! k) = samples ?t
             \<and> (\<forall>hs start fl live. \<exists>t''.
                   sample_thread hs start fl live (ThreadTable.list tt' ! k) = Inr (fl, live, t'')
                   \<and> samples t'' = SampleList_record_sample (- 1) start 0 CATEGORY_IDLE
                                      (samples (ThreadTable.list tt' ! k))
                   \<and> last (stacks (samples t'')) = - 1
                   \<and> last (categories (samples t'')) = CATEGORY_IDLE)"
    by (rule exI)
  from len0 tre gen last_part show ?thesis by blast
qed

lemma run_resumed:
  "\<exists>tt. profiler_run (ThreadTable_new, RawSample_new)
           [Notify caller0 RUNNING 1, Notify caller1 SUSPENDED 1, Notify caller2 READY 1,
            Notify caller3 RUNNING 1] = Inr (tt, RawSample_new)
        \<and> length (ThreadTable.list tt) = 1 \<and> state (ThreadTable.list tt ! 0) = RUNNING
        \<and> ruby_thread (ThreadTable.list tt ! 0) = 1
        \<and> stack_on_suspend_idx (ThreadTable.list tt ! 0) = 0
        \<and> SampleTranslator.len (translator (ThreadTable.list tt ! 0)) = 1
        \<and> last_stack_index (translator (ThreadTable.list tt ! 0)) = 0
        \<and> SampleTranslator.frames (translator (ThreadTable.list tt ! 0)) 0 = \<lparr>Frame.frame = 10, line = 1\<rparr>
        \<and> length (stack_node_list (ThreadTable.frame_list tt)) = 1
        \<and> samples (ThreadTable.list tt ! 0) = SampleList_new"
  by (simp add: table_eval_defs eval_defs caller3_def)

theorem C10_empty_capture_at_suspend_witness:
  "list_all event_ok [Notify caller0 RUNNING 1, Notify caller1 SUSPENDED 1, Notify caller2 READY 1,
                      Notify caller3 RUNNING 1]
   \<and> caller_ok caller_gc
   \<and> rb_during_gc (host caller_gc)
   \<and> RawSample.len (RawSample_sample (host caller_gc) RawSample_new) = 0
   \<and> (\<exists>tt tt' t''.
         profiler_run (ThreadTable_new, RawSample_new)
           [Notify caller0 RUNNING 1, Notify caller1 SUSPENDED 1, Notify caller2 READY 1,
            Notify caller3 RUNNING 1] = Inr (tt, RawSample_new)
         \<and> 0 < length (ThreadTable.list tt)
         \<and> state (ThreadTable.list tt ! 0) = RUNNING
         \<and> stack_on_suspend_idx (ThreadTable.list tt ! 0) = 0
         \<and> SampleTranslator.len (translator (ThreadTable.list tt ! 0)) = 1
         \<and> last_stack_index (translator (ThreadTable.list tt ! 0)) = 0
         \<and> length (stack_node_list (ThreadTable.frame_list tt)) = 1
         \<and> ThreadTable_set_state caller_gc SUSPENDED 1 tt = Inr tt'
         \<and> ThreadTable.frame_list tt' = ThreadTable.frame_list tt
         \<and> state (ThreadTable.list tt' ! 0) = SUSPENDED
         \<and> stack_on_suspend_idx (ThreadTable.list tt' ! 0) = - 1
         \<and> SampleTranslator.len (translator (ThreadTable.list tt' ! 0)) = 0
         \<and> last_stack_index (translator (ThreadTable.list tt' ! 0)) = - 1
         \<and> sample_thread (hosts tick_fa) (TimeStamp 550) (ThreadTable.frame_list tt') RawSample_new
              (ThreadTable.list tt' ! 0)
             = Inr (ThreadTable.frame_list tt', RawSample_new, t'')
         \<and> stacks (samples t'') = [- 1]
         \<and> categories (samples t'') = [CATEGORY_IDLE])"
proof -
  let ?es = "[Notify caller0 RUNNING 1, Notify caller1 SUSPENDED 1, Notify caller2 READY 1,
              Notify caller3 RUNNING 1]"
  have c3: "caller_ok caller3" and cg: "caller_ok caller_gc"
    by (simp_all add: caller_ok_def host_ok_def caller3_def caller_gc_def host_fa_def MAX_LEN_def)
  have ok: "list_all event_ok ?es" by (simp add: callers_ok c3)
  have g: "rb_during_gc (host caller_gc)" by (simp add: caller_gc_def)
  then have e': "\<not> ruby_native_thread_p (host caller_gc) \<or> rb_during_gc (host caller_gc)
      \<or> profile_count (host caller_gc) = 0"
    by simp
  from run_resumed obtain tt where
    r: "profiler_run (ThreadTable_new, RawSample_new) ?es = Inr (tt, RawSample_new)"
    and l: "length (ThreadTable.list tt) = 1" and s: "state (ThreadTable.list tt ! 0) = RUNNING"
    and rt: "ruby_thread (ThreadTable.list tt ! 0) = 1"
    and i0: "stack_on_suspend_idx (ThreadTable.list tt ! 0) = 0"
    and c0: "SampleTranslator.len (translator (ThreadTable.list tt ! 0)) = 1"
      "last_stack_index (translator (ThreadTable.list tt ! 0)) = 0"
    and n0: "length (stack_node_list (ThreadTable.frame_list tt)) = 1"
    and sm: "samples (ThreadTable.list tt ! 0) = SampleList_new"
    by blast
  from l have l0: "0 < length (ThreadTable.list tt)" by simp
  from s have s': "state (ThreadTable.list tt ! 0) = RUNNING \<or> state (ThreadTable.list tt ! 0) = STARTED
      \<or> state (ThreadTable.list tt ! 0) = SUSPENDED"
    by simp
  note th = C10_empty_capture_at_suspend[OF ok r l0 s' cg e']
  from th have len0: "RawSample.len (RawSample_sample (host caller_gc) RawSample_new) = 0" by blast
  from th obtain tt' where
    a: "ThreadTable_set_state caller_gc SUSPENDED 1 tt = Inr tt'"
    and fl: "ThreadTable.frame_list tt' = ThreadTable.frame_list tt"
    and b: "state (ThreadTable.list tt' ! 0) = SUSPENDED"
      "stack_on_suspend_idx (ThreadTable.list tt' ! 0) = - 1"
    and t: "translator (ThreadTable.list tt' ! 0)
              = (translator (ThreadTable.list tt ! 0))\<lparr>SampleTranslator.len := 0, last_stack_index := - 1\<rparr>"
    and sm': "samples (ThreadTable.list tt' ! 0) = samples (ThreadTable.list tt ! 0)"
    and c: "\<forall>hs start fl live. \<exists>t''.
                   sample_thread hs start fl live (ThreadTable.list tt' ! 0) = Inr (fl, live, t'')
                   \<and> samples t'' = SampleList_record_sample (- 1) start 0 CATEGORY_IDLE
                                      (samples (ThreadTable.list tt' ! 0))
                   \<and> last (stacks (samples t'')) = - 1
                   \<and> last (categories (samples t'')) = CATEGORY_IDLE"
    unfolding rt by blast
  have t0: "SampleTranslator.len (translator (ThreadTable.list tt' ! 0)) = 0"
    "last_stack_index (translator (ThreadTable.list tt' ! 0)) = - 1"
    by (simp_all add: t)
  from c obtain t'' where
    d: "sample_thread (hosts tick_fa) (TimeStamp 550) (ThreadTable.frame_list tt') RawSample_new
          (ThreadTable.list tt' ! 0) = Inr (ThreadTable.frame_list tt', RawSample_new, t'')"
    and d': "samples t'' = SampleList_record_sample (- 1) (TimeStamp 550) 0 CATEGORY_IDLE SampleList_new"
    unfolding sm' sm by blast
  have st: "stacks (samples t'') = [- 1]" "categories (samples t'') = [CATEGORY_IDLE]"
    by (simp_all add: d' SampleList_record_sample_def SampleList_new_def SampleList_empty_def
          SampleList_size_def)
  have "\<exists>tt tt' t''.
         profiler_run (ThreadTable_new, RawSample_new) ?es = Inr (tt, RawSample_new)
         \<and> 0 < length (ThreadTable.list tt)
         \<and> state (ThreadTable.list tt ! 0) = RUNNING
         \<and> stack_on_suspend_idx (ThreadTable.list tt ! 0) = 0
         \<and> SampleTranslator.len (translator (ThreadTable.list tt ! 0)) = 1
         \<and> last_stack_index (translator (ThreadTable.list tt ! 0)) = 0
         \<and> length (stack_node_list (ThreadTable.frame_list tt)) = 1
         \<and> ThreadTable_set_state caller_gc SUSPENDED 1 tt = Inr tt'
         \<and> ThreadTable.frame_list tt' = ThreadTable.frame_list tt
         \<and> state (ThreadTable.list tt' ! 0) = SUSPENDED
         \<and> stack_on_suspend_idx (ThreadTable.list tt' ! 0) = - 1
         \<and> SampleTranslator.len (translator (ThreadTable.list tt' ! 0)) = 0
         \<and> last_stack_index (translator (ThreadTable.list tt' ! 0)) = - 1
         \<and> sample_thread (hosts tick_fa) (TimeStamp 550) (ThreadTable.frame_list tt') RawSample_new
              (ThreadTable.list tt' ! 0)
             = Inr (ThreadTable.frame_list tt', RawSample_new, t'')
         \<and> stacks (samples t'') = [- 1]
         \<and> categories (samples t'') = [CATEGORY_IDLE]"
    using r l0 s i0 c0 n0 a fl b t0 d st
    by (intro exI[of _ tt] exI[of _ tt'] exI[of _ t'']) simp
  with ok cg g len0 show ?thesis by blast
qed

end
